theory Spec2Isabelle
  imports Complex_Main
begin

section \<open>The overlay narration sequencer of static/js/main.js\<close>

text \<open>
  The development embeds the overlay sequencer of the last revision of
  \<^verbatim>\<open>static/js/main.js\<close> (section 7 of that file, with the helpers it calls):
  \<^verbatim>\<open>cancelOverlaySequence\<close>, \<^verbatim>\<open>ensureLinesContainer\<close>, \<^verbatim>\<open>typewriterLine\<close>,
  \<^verbatim>\<open>runOverlaySequence\<close>, \<^verbatim>\<open>showProcessingOverlay\<close>, \<^verbatim>\<open>showProcessingSuccess\<close>,
  \<^verbatim>\<open>clearFilesAfterSuccess\<close> and \<^verbatim>\<open>hideProcessingOverlay\<close>.

  The script is single-threaded and cooperative. An \<^verbatim>\<open>async\<close> function runs
  synchronously up to its next \<^verbatim>\<open>await sleep(ms)\<close>; there the rest of the function
  is parked behind a timer. The model keeps the parked continuations in the state
  (field \<open>pending\<close>), and one transition is either a call of an entry point or the
  firing of one parked continuation, which then runs up to its next \<^verbatim>\<open>sleep\<close>.
  When \<^verbatim>\<open>typewriterLine\<close> returns, its caller goes on in a microtask, before any
  timer or event handler; the model runs the caller on in the same transition. Timers
  may fire in any order, and the counter is a natural number (a JavaScript number
  stops growing at \<open>2^53\<close>, far beyond any run).
\<close>

subsection \<open>JavaScript values\<close>

text \<open>
  A string is its list of UTF-16 code units, which is what \<^verbatim>\<open>s.length\<close> counts and
  \<^verbatim>\<open>s[i]\<close> reads.
\<close>

type_synonym jstring = "nat list"

definition js_str :: "string \<Rightarrow> jstring" where
  "js_str cs = map of_char cs"

text \<open>
  A number is an IEEE 754 double: NaN, one of the two infinities, or a finite value.
  \<open>Fin n\<close> is the finite number whose value is the integer \<open>n\<close>, and \<open>Frac q\<close> the
  finite number whose value is the rational \<open>q\<close> when \<open>q\<close> is not an integer; a
  term of this type stands for a number when its value is one that a double has. The two
  zeros are the one value \<open>Fin 0\<close>: the sequencer only tests a number for truth,
  compares it and multiplies it by a positive constant, and both zeros are falsy and
  compare equal.
\<close>

datatype jsnum = Fin int | NaN | PosInf | NegInf | Frac rat

definition fin_of :: "rat \<Rightarrow> jsnum" where
  "fin_of q = (if q = of_int \<lfloor>q\<rfloor> then Fin \<lfloor>q\<rfloor> else Frac q)"

text \<open>
  The Number value for a real \<open>x\<close>: the double nearest to \<open>x\<close>, the one with the even
  significand when two are equally near, and an infinity from \<open>2^1024 - 2^970\<close> on.
  \<open>bitlen n\<close> is the number of binary digits of \<open>n\<close>, \<open>ilog2 x\<close> the exponent \<open>e\<close> with
  \<open>2^e \<le> x < 2^(e+1)\<close>; a double with exponent \<open>e\<close> is a multiple of \<open>2^(e-52)\<close>, and
  below \<open>2^-1022\<close> (the subnormal numbers) of \<open>2^-1074\<close>.
\<close>

function bitlen :: "int \<Rightarrow> int" where
  "bitlen n = (if n \<le> 0 then 0 else 1 + bitlen (n div 2))"
  by auto

termination bitlen
  by (relation "measure nat") auto

declare bitlen.simps [simp del]

definition pow2 :: "int \<Rightarrow> rat" where
  "pow2 e = (if 0 \<le> e then 2 ^ nat e else 1 / 2 ^ nat (- e))"

definition ilog2 :: "rat \<Rightarrow> int" where
  "ilog2 x = (if 1 \<le> x then bitlen \<lfloor>x\<rfloor> - 1 else - bitlen (\<lceil>1 / x\<rceil> - 1))"

definition round_half_even :: "rat \<Rightarrow> int" where
  "round_half_even r =
     (let f = \<lfloor>r\<rfloor>; d = r - of_int f
      in if d < 1 / 2 then f else if 1 / 2 < d then f + 1 else if even f then f else f + 1)"

definition round_double :: "rat \<Rightarrow> jsnum" where
  "round_double x =
     (if x = 0 then Fin 0
      else let a = \<bar>x\<bar>;
               e = max (ilog2 a) (- 1022);
               q = pow2 (e - 52);
               y = of_int (round_half_even (a / q)) * q
           in if 2 ^ 1024 \<le> y then (if 0 < x then PosInf else NegInf)
              else fin_of (if 0 < x then y else - y))"

text \<open>
  The conversion of a string to a number (\<^verbatim>\<open>StringToNumber\<close> of the language): white
  space and line terminators are trimmed at both ends; the empty string is 0; a literal
  \<^verbatim>\<open>0x\<close>, \<^verbatim>\<open>0o\<close> or \<^verbatim>\<open>0b\<close> with digits of its radix is that integer; otherwise an
  optional sign followed by \<^verbatim>\<open>Infinity\<close> or by a decimal literal (digits, an optional
  point with digits before or after it, an optional exponent); anything else is NaN. The
  value of the literal is rounded to the nearest double (the language lets an engine
  round a literal of more than 20 significant digits less exactly; the engines round the
  exact value).
\<close>

definition is_ws :: "nat \<Rightarrow> bool" where
  "is_ws c = (c \<in> {9, 10, 11, 12, 13, 32, 160, 5760, 8232, 8233, 8239, 8287, 12288, 65279}
              \<or> (8192 \<le> c \<and> c \<le> 8202))"

definition trim :: "jstring \<Rightarrow> jstring" where
  "trim s = rev (dropWhile is_ws (rev (dropWhile is_ws s)))"

definition digit_val :: "nat \<Rightarrow> int option" where
  "digit_val c =
     (if 48 \<le> c \<and> c \<le> 57 then Some (int c - 48)
      else if 97 \<le> c \<and> c \<le> 102 then Some (int c - 87)
      else if 65 \<le> c \<and> c \<le> 70 then Some (int c - 55)
      else None)"

definition is_digit_in :: "int \<Rightarrow> nat \<Rightarrow> bool" where
  "is_digit_in r c = (case digit_val c of Some d \<Rightarrow> d < r | None \<Rightarrow> False)"

definition digits_in :: "int \<Rightarrow> jstring \<Rightarrow> int" where
  "digits_in r ds = foldl (\<lambda>a c. a * r + (case digit_val c of Some d \<Rightarrow> d | None \<Rightarrow> 0)) 0 ds"

definition nondecimal :: "jstring \<Rightarrow> int option" where
  "nondecimal t =
     (case t of
        z # x # ds \<Rightarrow>
          (let r = (if x = 120 \<or> x = 88 then 16 else if x = 111 \<or> x = 79 then 8
                    else if x = 98 \<or> x = 66 then 2 else 0)
           in if z = 48 \<and> r \<noteq> 0 \<and> ds \<noteq> [] \<and> list_all (is_digit_in r) ds
              then Some (digits_in r ds) else None)
      | _ \<Rightarrow> None)"

definition signed_integer :: "jstring \<Rightarrow> int option" where
  "signed_integer s =
     (let neg = (s \<noteq> [] \<and> hd s = 45);
          ds = (if s \<noteq> [] \<and> (hd s = 43 \<or> hd s = 45) then tl s else s)
      in if ds \<noteq> [] \<and> list_all (is_digit_in 10) ds
         then Some (if neg then - digits_in 10 ds else digits_in 10 ds) else None)"

definition exponent_part :: "jstring \<Rightarrow> int option" where
  "exponent_part s =
     (case s of [] \<Rightarrow> Some 0
      | c # r \<Rightarrow> if c = 101 \<or> c = 69 then signed_integer r else None)"

definition pow10 :: "int \<Rightarrow> rat" where
  "pow10 e = (if 0 \<le> e then 10 ^ nat e else 1 / 10 ^ nat (- e))"

definition unsigned_decimal :: "jstring \<Rightarrow> rat option" where
  "unsigned_decimal s =
     (let ip = takeWhile (is_digit_in 10) s;
          r1 = dropWhile (is_digit_in 10) s;
          dot = (r1 \<noteq> [] \<and> hd r1 = 46);
          fp = (if dot then takeWhile (is_digit_in 10) (tl r1) else []);
          r2 = (if dot then dropWhile (is_digit_in 10) (tl r1) else r1)
      in if ip = [] \<and> fp = [] then None
         else case exponent_part r2 of
                None \<Rightarrow> None
              | Some ex \<Rightarrow>
                  Some (of_int (digits_in 10 (ip @ fp)) * pow10 (ex - int (length fp))))"

definition StringToNumber :: "jstring \<Rightarrow> jsnum" where
  "StringToNumber s =
     (let t = trim s
      in if t = [] then Fin 0
         else case nondecimal t of
                Some n \<Rightarrow> round_double (of_int n)
              | None \<Rightarrow>
                  (let neg = (hd t = 45);
                       u = (if hd t = 43 \<or> hd t = 45 then tl t else t)
                   in if u = js_str ''Infinity'' then (if neg then NegInf else PosInf)
                      else case unsigned_decimal u of
                             None \<Rightarrow> NaN
                           | Some q \<Rightarrow> round_double (if neg then - q else q)))"

text \<open>
  A value is a primitive or an object. \<^verbatim>\<open>Number\<close> asks an object for a primitive
  (\<^verbatim>\<open>Symbol.toPrimitive\<close>, \<^verbatim>\<open>valueOf\<close>, \<^verbatim>\<open>toString\<close>, which are code of the object), so
  an object is kept as what this request does: \<open>JObj (Inl e)\<close> throws \<open>e\<close>, and
  \<open>JObj (Inr v)\<close> answers \<open>v\<close>; an answer that is an object again is a \<^verbatim>\<open>TypeError\<close>.
  An array answers the string of its elements joined by commas, a plain object the
  string \<^verbatim>\<open>[object Object]\<close>. The request is taken to leave the page alone.
\<close>

datatype error = TypeError | Thrown

datatype jsval = JUndefined | JNull | JBool bool | JNum jsnum | JSymbol
  | JStr jstring | JBigInt int | JObj "error + jsval"

definition ToPrimitive :: "jsval \<Rightarrow> error + jsval" where
  "ToPrimitive v =
     (case v of
        JObj (Inl e) \<Rightarrow> Inl e
      | JObj (Inr (JObj _)) \<Rightarrow> Inl TypeError
      | JObj (Inr p) \<Rightarrow> Inr p
      | _ \<Rightarrow> Inr v)"

text \<open>
  \<^verbatim>\<open>Number(v)\<close> on a primitive: the conversion throws on a symbol, parses a string and
  rounds a BigInt.
\<close>

fun Number_prim :: "jsval \<Rightarrow> error + jsnum" where
  "Number_prim JUndefined = Inr NaN"
| "Number_prim JNull = Inr (Fin 0)"
| "Number_prim (JBool b) = Inr (Fin (if b then 1 else 0))"
| "Number_prim (JNum n) = Inr n"
| "Number_prim JSymbol = Inl TypeError"
| "Number_prim (JStr s) = Inr (StringToNumber s)"
| "Number_prim (JBigInt n) = Inr (round_double (of_int n))"
| "Number_prim (JObj _) = Inl TypeError"

text \<open>\<^verbatim>\<open>Number(v)\<close>.\<close>

definition Number_of :: "jsval \<Rightarrow> error + jsnum" where
  "Number_of v = (case ToPrimitive v of Inl e \<Rightarrow> Inl e | Inr p \<Rightarrow> Number_prim p)"

text \<open>\<^verbatim>\<open>x || y\<close> on a number \<open>x\<close>: zero and NaN are falsy.\<close>

definition js_or :: "jsnum \<Rightarrow> jsnum \<Rightarrow> jsnum" where
  "js_or x y = (if x = Fin 0 \<or> x = NaN then y else x)"

fun js_le :: "jsnum \<Rightarrow> jsnum \<Rightarrow> bool" where
  "js_le NaN _ = False"
| "js_le _ NaN = False"
| "js_le NegInf _ = True"
| "js_le _ PosInf = True"
| "js_le (Fin a) (Fin b) = (a \<le> b)"
| "js_le (Fin a) (Frac b) = (of_int a \<le> b)"
| "js_le (Frac a) (Fin b) = (a \<le> of_int b)"
| "js_le (Frac a) (Frac b) = (a \<le> b)"
| "js_le _ _ = False"

definition Math_max :: "jsnum \<Rightarrow> jsnum \<Rightarrow> jsnum" where
  "Math_max a b = (if a = NaN \<or> b = NaN then NaN else if js_le a b then b else a)"

definition Math_min :: "jsnum \<Rightarrow> jsnum \<Rightarrow> jsnum" where
  "Math_min a b = (if a = NaN \<or> b = NaN then NaN else if js_le a b then a else b)"

text \<open>\<^verbatim>\<open>x * y\<close>: the product of two finite numbers is rounded to the nearest double.\<close>

fun js_mul :: "jsnum \<Rightarrow> jsnum \<Rightarrow> jsnum" where
  "js_mul NaN _ = NaN"
| "js_mul _ NaN = NaN"
| "js_mul (Fin a) (Fin b) = round_double (of_int a * of_int b)"
| "js_mul (Fin a) (Frac b) = round_double (of_int a * b)"
| "js_mul (Frac a) (Fin b) = round_double (a * of_int b)"
| "js_mul (Frac a) (Frac b) = round_double (a * b)"
| "js_mul (Fin a) PosInf = (if a = 0 then NaN else if 0 < a then PosInf else NegInf)"
| "js_mul (Fin a) NegInf = (if a = 0 then NaN else if 0 < a then NegInf else PosInf)"
| "js_mul PosInf (Fin b) = (if b = 0 then NaN else if 0 < b then PosInf else NegInf)"
| "js_mul NegInf (Fin b) = (if b = 0 then NaN else if 0 < b then NegInf else PosInf)"
| "js_mul (Frac a) PosInf = (if a = 0 then NaN else if 0 < a then PosInf else NegInf)"
| "js_mul (Frac a) NegInf = (if a = 0 then NaN else if 0 < a then NegInf else PosInf)"
| "js_mul PosInf (Frac b) = (if b = 0 then NaN else if 0 < b then PosInf else NegInf)"
| "js_mul NegInf (Frac b) = (if b = 0 then NaN else if 0 < b then NegInf else PosInf)"
| "js_mul PosInf PosInf = PosInf"
| "js_mul PosInf NegInf = NegInf"
| "js_mul NegInf PosInf = NegInf"
| "js_mul NegInf NegInf = PosInf"

text \<open>A parameter declared \<^verbatim>\<open>filesCount = 1\<close> takes the default when it is undefined.\<close>

definition default_1 :: "jsval \<Rightarrow> jsval" where
  "default_1 v = (if v = JUndefined then JNum (Fin 1) else v)"

subsection \<open>Speed settings and the line queue\<close>

definition LINE_TYPE_SPEED_MS :: int where "LINE_TYPE_SPEED_MS = 60"
definition LINE_GAP_BASE_MS :: int where "LINE_GAP_BASE_MS = 210"
definition LINE_FADE_MS :: int where "LINE_FADE_MS = 350"

definition OVERLAY_LINES :: "jstring list" where
  "OVERLAY_LINES =
    [js_str ''Okay, Uploading your Files to my workspace.. This won't take long!'',
     js_str ''Now I'm reading through all the text in your documents. Fascinating stuff!'',
     js_str ''Breaking down the contents into small chapters so that i can understand it better.'',
     js_str ''Converting everything into a format my AI brain can process. This is where the magic happens!'',
     js_str ''Building my knowledge index.. Almost there!'',
     js_str ''Perfect I've learned everything from your documents. I'm ready to use this new knowledge.'',
     js_str ''Thank you for these interesting new information !'']"

text \<open>The completion message; its dash is the code unit U+2014.\<close>

definition success_msg :: jstring where
  "success_msg = js_str ''Done. Training complete '' @ [8212] @
     js_str '' I'm ready to answer using your Files.''"

text \<open>
  The pacing of \<^verbatim>\<open>runOverlaySequence\<close>:
  \<^verbatim>\<open>count = Math.max(1, Number(filesCount) || 1)\<close> and
  \<^verbatim>\<open>gapMs = Math.min(1200, LINE_GAP_BASE_MS * count)\<close>.
\<close>

definition count_of :: "jsval \<Rightarrow> error + jsnum" where
  "count_of filesCount =
     (case Number_of filesCount of
        Inl e \<Rightarrow> Inl e
      | Inr n \<Rightarrow> Inr (Math_max (Fin 1) (js_or n (Fin 1))))"

definition gapMs_of :: "jsnum \<Rightarrow> jsnum" where
  "gapMs_of count = Math_min (Fin 1200) (js_mul (Fin LINE_GAP_BASE_MS) count)"

text \<open>
  The delay after one character in \<^verbatim>\<open>typewriterLine\<close>:
  \<^verbatim>\<open>extra = ch === "." || ch === "!" || ch === "?" || ch === "," ? LINE_TYPE_SPEED_MS * 3 : 0\<close>,
  then \<^verbatim>\<open>sleep(LINE_TYPE_SPEED_MS + extra)\<close>.
\<close>

definition extra_of :: "nat \<Rightarrow> int" where
  "extra_of ch =
     (if ch = of_char CHR ''.'' \<or> ch = of_char CHR ''!'' \<or> ch = of_char CHR ''?'' \<or>
         ch = of_char CHR '',''
      then LINE_TYPE_SPEED_MS * 3 else 0)"

definition char_delay :: "nat \<Rightarrow> int" where
  "char_delay ch = LINE_TYPE_SPEED_MS + extra_of ch"

subsection \<open>The page, the document and the parked continuations\<close>

text \<open>
  The element references are module constants, looked up once when the script loads
  (\<^verbatim>\<open>$("#processingOverlay")\<close> and the others); each may be absent. The line queue
  \<^verbatim>\<open>OVERLAY_LINES\<close> is kept with them as a parameter, so that results hold for every
  queue.
\<close>

record page =
  has_overlay :: bool
  has_lines :: bool
  has_sub :: bool
  has_title :: bool
  has_dots :: bool
  lottie_ok :: bool
  overlay_lines :: "jstring list"

text \<open>
  A child of a line element or of \<^verbatim>\<open>#processingSub\<close> is a text node of one code unit
  (\<^verbatim>\<open>el.append(s[i])\<close>) or a caret \<^verbatim>\<open>span\<close>, known by the number it got when it
  was created. A \<^verbatim>\<open>div.status-line\<close> is a record of its two classes and its children.
\<close>

datatype item = Txt nat | Caret nat

record node =
  cls_show :: bool
  cls_hide :: bool
  kids :: "item list"

datatype target = NodeT nat | SubT

datatype container = LinesC | SubC

text \<open>The local variables of \<^verbatim>\<open>runOverlaySequence\<close> that live across an \<^verbatim>\<open>await\<close>.\<close>

record frame =
  f_runId :: nat
  f_useNodes :: bool
  f_gapMs :: jsnum
  f_currentNode :: "nat option"
  f_rest :: "jstring list"

text \<open>Who awaits \<^verbatim>\<open>typewriterLine\<close>: the sequence loop or \<^verbatim>\<open>showProcessingSuccess\<close>.\<close>

datatype kont = SeqK frame | SuccK

text \<open>
  The suspension points. \<open>CharWait runId el caret rest k\<close> is the \<^verbatim>\<open>sleep\<close> after a
  character, with the characters still to type; \<open>FadeWait fr line\<close> the
  \<^verbatim>\<open>sleep(LINE_FADE_MS)\<close>; \<open>GapWait fr\<close> the \<^verbatim>\<open>sleep(gapMs)\<close>; \<open>SettleWait\<close> the
  \<^verbatim>\<open>sleep(240)\<close> of \<^verbatim>\<open>showProcessingSuccess\<close>; \<open>RafShow n\<close> the callback given to
  \<^verbatim>\<open>requestAnimationFrame\<close>.
\<close>

datatype cont =
    CharWait nat target nat jstring kont
  | FadeWait frame jstring
  | GapWait frame
  | SettleWait
  | RafShow nat

datatype wake = Timeout jsnum | AnimationFrame

record state =
  overlayRunId :: nat
  next_id :: nat
  heap :: "nat \<Rightarrow> node"
  lines_kids :: "nat list"
  sub_kids :: "item list"
  dots_text :: jstring
  title_hidden :: bool
  overlay_hidden :: bool
  aria_hidden :: bool
  lottie_loaded :: bool
  lottie_playing :: bool
  selectedFiles :: "nat list"
  selectedTrainType :: jstring
  pending :: "(wake \<times> cont) list"

subsection \<open>DOM operations\<close>

definition get_kids :: "target \<Rightarrow> state \<Rightarrow> item list" where
  "get_kids el s = (case el of NodeT n \<Rightarrow> kids (heap s n) | SubT \<Rightarrow> sub_kids s)"

definition set_kids :: "target \<Rightarrow> item list \<Rightarrow> state \<Rightarrow> state" where
  "set_kids el ks s =
     (case el of
        NodeT n \<Rightarrow> s\<lparr>heap := (heap s)(n := (heap s n)\<lparr>kids := ks\<rparr>)\<rparr>
      | SubT \<Rightarrow> s\<lparr>sub_kids := ks\<rparr>)"

text \<open>\<^verbatim>\<open>caret.remove()\<close>, for a caret whose only possible parent is \<open>el\<close>.\<close>

definition remove_child :: "target \<Rightarrow> item \<Rightarrow> state \<Rightarrow> state" where
  "remove_child el it s = set_kids el (removeAll it (get_kids el s)) s"

text \<open>\<^verbatim>\<open>el.appendChild(caret)\<close>: the child moves to the end.\<close>

definition appendChild :: "target \<Rightarrow> item \<Rightarrow> state \<Rightarrow> state" where
  "appendChild el it s = set_kids el (removeAll it (get_kids el s) @ [it]) s"

text \<open>\<^verbatim>\<open>el.append(ch)\<close>: a new text node at the end.\<close>

definition append_text :: "target \<Rightarrow> nat \<Rightarrow> state \<Rightarrow> state" where
  "append_text el ch s = set_kids el (get_kids el s @ [Txt ch]) s"

text \<open>\<^verbatim>\<open>await sleep(ms)\<close> parks the rest of the function behind a timer.\<close>

definition sleep :: "jsnum \<Rightarrow> cont \<Rightarrow> state \<Rightarrow> state" where
  "sleep ms k s = s\<lparr>pending := pending s @ [(Timeout ms, k)]\<rparr>"

definition requestAnimationFrame :: "cont \<Rightarrow> state \<Rightarrow> state" where
  "requestAnimationFrame k s = s\<lparr>pending := pending s @ [(AnimationFrame, k)]\<rparr>"

subsection \<open>The sequencer\<close>

text \<open>
  \<^verbatim>\<open>cancelOverlaySequence\<close>: the counter goes up first, then the narration is cleared
  in every element that exists.
\<close>

definition cancelOverlaySequence :: "page \<Rightarrow> state \<Rightarrow> state" where
  "cancelOverlaySequence p s =
     (let s1 = s\<lparr>overlayRunId := overlayRunId s + 1\<rparr>;
          s2 = (if has_lines p then s1\<lparr>lines_kids := []\<rparr> else s1);
          s3 = (if has_sub p then s2\<lparr>sub_kids := []\<rparr> else s2)
      in if has_dots p then s3\<lparr>dots_text := []\<rparr> else s3)"

definition ensureLinesContainer :: "page \<Rightarrow> container option" where
  "ensureLinesContainer p =
     (if has_lines p then Some LinesC else if has_sub p then Some SubC else None)"

text \<open>What runs when \<^verbatim>\<open>await typewriterLine(...)\<close> returns to its caller.\<close>

definition resume_caller :: "kont \<Rightarrow> state \<Rightarrow> state" where
  "resume_caller k s =
     (case k of
        SeqK fr \<Rightarrow> sleep (f_gapMs fr) (GapWait fr) s
      | SuccK \<Rightarrow> sleep (Fin 240) SettleWait s)"

text \<open>
  One turn of the \<^verbatim>\<open>for\<close> loop of \<^verbatim>\<open>typewriterLine\<close>, from the loop test to the
  \<^verbatim>\<open>sleep\<close>; \<open>chars\<close> is \<^verbatim>\<open>s\<close> from index \<^verbatim>\<open>i\<close> on. When the string is used
  up the caret is removed and the function returns.
\<close>

definition tw_loop :: "nat \<Rightarrow> target \<Rightarrow> nat \<Rightarrow> jstring \<Rightarrow> kont \<Rightarrow> state \<Rightarrow> state" where
  "tw_loop runId el caret chars k s =
     (case chars of
        [] \<Rightarrow> resume_caller k (remove_child el (Caret caret) s)
      | ch # rest \<Rightarrow>
          if runId \<noteq> overlayRunId s then resume_caller k s
          else
            let s1 = remove_child el (Caret caret) s;
                s2 = append_text el ch s1;
                s3 = appendChild el (Caret caret) s2
            in sleep (Fin (char_delay ch)) (CharWait runId el caret rest k) s3)"

definition typewriterLine :: "target \<Rightarrow> jstring \<Rightarrow> nat \<Rightarrow> kont \<Rightarrow> state \<Rightarrow> state" where
  "typewriterLine el text runId k s =
     (let s1 = set_kids el [] s;
          caret = next_id s1;
          s2 = s1\<lparr>next_id := caret + 1\<rparr>;
          s3 = appendChild el (Caret caret) s2
      in tw_loop runId el caret text k s3)"

text \<open>
  The body of the sequence loop from the creation of the line's element on; in the
  legacy layout the line is typed into \<^verbatim>\<open>#processingSub\<close> itself.
\<close>

definition seq_body :: "frame \<Rightarrow> jstring \<Rightarrow> state \<Rightarrow> state" where
  "seq_body fr line s =
     (if f_useNodes fr then
        let n = next_id s;
            s1 = s\<lparr>next_id := n + 1,
                   heap := (heap s)(n := \<lparr>cls_show = False, cls_hide = False, kids = []\<rparr>)\<rparr>;
            s2 = s1\<lparr>lines_kids := removeAll n (lines_kids s1) @ [n]\<rparr>;
            fr' = fr\<lparr>f_currentNode := Some n\<rparr>;
            s3 = requestAnimationFrame (RafShow n) s2
        in typewriterLine (NodeT n) line (f_runId fr) (SeqK fr') s3
      else typewriterLine SubT line (f_runId fr) (SeqK fr) s)"

text \<open>
  One turn of the loop over the queue, from the top to the first \<^verbatim>\<open>sleep\<close>:
  the identity test, then the fade of the previous line if there is one.
\<close>

definition seq_iter :: "frame \<Rightarrow> state \<Rightarrow> state" where
  "seq_iter fr s =
     (case f_rest fr of
        [] \<Rightarrow> s
      | line # rest \<Rightarrow>
          if f_runId fr \<noteq> overlayRunId s then s
          else
            (case (if f_useNodes fr then f_currentNode fr else None) of
               Some n \<Rightarrow>
                 sleep (Fin LINE_FADE_MS) (FadeWait (fr\<lparr>f_rest := rest\<rparr>) line)
                   (s\<lparr>heap := (heap s)(n := (heap s n)\<lparr>cls_show := False, cls_hide := True\<rparr>)\<rparr>)
             | None \<Rightarrow> seq_body (fr\<lparr>f_rest := rest\<rparr>) line s))"

text \<open>After the fade: \<^verbatim>\<open>currentNode.remove(); currentNode = null\<close>, then the body.\<close>

definition after_fade :: "frame \<Rightarrow> jstring \<Rightarrow> state \<Rightarrow> state" where
  "after_fade fr line s =
     (case f_currentNode fr of
        Some n \<Rightarrow>
          seq_body (fr\<lparr>f_currentNode := None\<rparr>) line (s\<lparr>lines_kids := removeAll n (lines_kids s)\<rparr>)
      | None \<Rightarrow> seq_body fr line s)"

text \<open>
  \<^verbatim>\<open>runOverlaySequence\<close> up to its first \<^verbatim>\<open>sleep\<close>. It is an \<^verbatim>\<open>async\<close> function:
  an exception of \<^verbatim>\<open>Number(filesCount)\<close> rejects the promise it returns, which is
  the first component of the result.
\<close>

definition runOverlaySequence :: "page \<Rightarrow> jsval \<Rightarrow> state \<Rightarrow> error option \<times> state" where
  "runOverlaySequence p filesCount s =
     (case ensureLinesContainer p of
        None \<Rightarrow> (None, s)
      | Some container \<Rightarrow>
          let runId = overlayRunId s + 1;
              s1 = s\<lparr>overlayRunId := runId\<rparr>;
              useNodes = (container = LinesC);
              s2 = (if useNodes then s1\<lparr>lines_kids := []\<rparr> else s1\<lparr>sub_kids := []\<rparr>)
          in (case count_of (default_1 filesCount) of
                Inl e \<Rightarrow> (Some e, s2)
              | Inr count \<Rightarrow>
                  (None,
                   seq_iter \<lparr>f_runId = runId, f_useNodes = useNodes, f_gapMs = gapMs_of count,
                             f_currentNode = None, f_rest = overlay_lines p\<rparr> s2)))"

definition initOverlayLottie :: "page \<Rightarrow> state \<Rightarrow> state" where
  "initOverlayLottie p s =
     (if lottie_loaded s then s
      else if \<not> lottie_ok p then s
      else s\<lparr>lottie_loaded := True\<rparr>)"

text \<open>
  \<^verbatim>\<open>showProcessingOverlay\<close> returns normally (\<open>Inr\<close>) or throws (\<open>Inl\<close>). It does not
  await the promise of \<^verbatim>\<open>runOverlaySequence\<close>, so a rejection is dropped.
\<close>

definition showProcessingOverlay :: "page \<Rightarrow> jsval \<Rightarrow> state \<Rightarrow> error + state" where
  "showProcessingOverlay p filesCount s =
     (if \<not> has_overlay p then Inr s
      else
        let s1 = cancelOverlaySequence p s;
            s2 = (if has_title p then s1\<lparr>title_hidden := True\<rparr> else s1);
            s3 = s2\<lparr>overlay_hidden := False, aria_hidden := False\<rparr>;
            s4 = initOverlayLottie p s3;
            s5 = (if lottie_loaded s4 then s4\<lparr>lottie_playing := True\<rparr> else s4)
        in Inr (snd (runOverlaySequence p (default_1 filesCount) s5)))"

definition hideProcessingOverlay :: "page \<Rightarrow> state \<Rightarrow> state" where
  "hideProcessingOverlay p s =
     (let s1 = cancelOverlaySequence p s;
          s2 = (if lottie_loaded s1 then s1\<lparr>lottie_playing := False\<rparr> else s1)
      in if \<not> has_overlay p then s2
         else s2\<lparr>overlay_hidden := True, aria_hidden := True\<rparr>)"

text \<open>\<^verbatim>\<open>showProcessingSuccess\<close> up to its first \<^verbatim>\<open>sleep\<close>.\<close>

definition showProcessingSuccess :: "page \<Rightarrow> state \<Rightarrow> state" where
  "showProcessingSuccess p s =
     (let s1 = cancelOverlaySequence p s
      in (case ensureLinesContainer p of
            None \<Rightarrow> hideProcessingOverlay p s1
          | Some container \<Rightarrow>
              let runId = overlayRunId s1
              in if container = LinesC then
                   let n = next_id s1;
                       s2 = s1\<lparr>next_id := n + 1,
                               heap := (heap s1)(n := \<lparr>cls_show = True, cls_hide = False, kids = []\<rparr>)\<rparr>;
                       s3 = s2\<lparr>lines_kids := removeAll n (lines_kids s2) @ [n]\<rparr>
                   in typewriterLine (NodeT n) success_msg runId SuccK s3
                 else typewriterLine SubT success_msg runId SuccK s1))"

text \<open>
  \<^verbatim>\<open>clearFilesAfterSuccess\<close> and \<^verbatim>\<open>resetTrainingType\<close>; the rendering of the file
  list and of the dropdown label is outside the model.
\<close>

definition clearFilesAfterSuccess :: "state \<Rightarrow> state" where
  "clearFilesAfterSuccess s = s\<lparr>selectedFiles := []\<rparr>"

definition resetTrainingType :: "state \<Rightarrow> state" where
  "resetTrainingType s = s\<lparr>selectedTrainType := []\<rparr>"

text \<open>The rest of \<^verbatim>\<open>showProcessingSuccess\<close> after \<^verbatim>\<open>sleep(240)\<close>.\<close>

definition after_settle :: "page \<Rightarrow> state \<Rightarrow> state" where
  "after_settle p s = resetTrainingType (hideProcessingOverlay p (clearFilesAfterSuccess s))"

subsection \<open>Transitions\<close>

text \<open>A parked continuation runs on, up to its next \<^verbatim>\<open>sleep\<close> or to its end.\<close>

definition resume :: "page \<Rightarrow> cont \<Rightarrow> state \<Rightarrow> state" where
  "resume p k s =
     (case k of
        CharWait runId el caret rest kk \<Rightarrow> tw_loop runId el caret rest kk s
      | FadeWait fr line \<Rightarrow> after_fade fr line s
      | GapWait fr \<Rightarrow> seq_iter fr s
      | SettleWait \<Rightarrow> after_settle p s
      | RafShow n \<Rightarrow> s\<lparr>heap := (heap s)(n := (heap s n)\<lparr>cls_show := True\<rparr>)\<rparr>)"

text \<open>The \<open>i\<close>-th parked continuation wakes up; nothing happens if there is none.\<close>

definition fire :: "page \<Rightarrow> nat \<Rightarrow> state \<Rightarrow> state" where
  "fire p i s =
     (if i < length (pending s)
      then resume p (snd (pending s ! i))
             (s\<lparr>pending := take i (pending s) @ drop (Suc i) (pending s)\<rparr>)
      else s)"

datatype event = Start jsval | Succeed | Hide | Fire nat

definition step :: "page \<Rightarrow> event \<Rightarrow> state \<Rightarrow> state" where
  "step p e s =
     (case e of
        Start v \<Rightarrow> (case showProcessingOverlay p v s of Inr s' \<Rightarrow> s' | Inl _ \<Rightarrow> s)
      | Succeed \<Rightarrow> showProcessingSuccess p s
      | Hide \<Rightarrow> hideProcessingOverlay p s
      | Fire i \<Rightarrow> fire p i s)"

definition exec :: "page \<Rightarrow> event list \<Rightarrow> state \<Rightarrow> state" where
  "exec p es s = foldl (\<lambda>s e. step p e s) s es"

section \<open>Definitions for the properties\<close>

text \<open>The run identity a parked continuation has captured, if it tests one.\<close>

definition cont_runId :: "cont \<Rightarrow> nat option" where
  "cont_runId k =
     (case k of
        CharWait r _ _ _ _ \<Rightarrow> Some r
      | FadeWait fr _ \<Rightarrow> Some (f_runId fr)
      | GapWait fr \<Rightarrow> Some (f_runId fr)
      | SettleWait \<Rightarrow> None
      | RafShow _ \<Rightarrow> None)"

text \<open>What the caller of \<^verbatim>\<open>typewriterLine\<close> parks when the typewriter returns.\<close>

definition parked :: "kont \<Rightarrow> wake \<times> cont" where
  "parked k = (case k of SeqK fr \<Rightarrow> (Timeout (f_gapMs fr), GapWait fr)
                 | SuccK \<Rightarrow> (Timeout (Fin 240), SettleWait))"

text \<open>
  What the narration container shows: the children of every line element attached to
  \<^verbatim>\<open>#processingLines\<close>, or the children of \<^verbatim>\<open>#processingSub\<close> in the legacy layout.
\<close>

definition shown :: "page \<Rightarrow> state \<Rightarrow> item list list" where
  "shown p s =
     (case ensureLinesContainer p of
        Some LinesC \<Rightarrow> map (\<lambda>n. kids (heap s n)) (lines_kids s)
      | Some SubC \<Rightarrow> [sub_kids s]
      | None \<Rightarrow> [])"

text \<open>
  A line is fully revealed at the moment its run parks at the gap wait: a transition
  completes a reveal when it parks a gap wait that was not parked before. \<open>reveals\<close>
  collects what the container shows at each of these moments along a list of events.
\<close>

definition gap_frames :: "state \<Rightarrow> frame list" where
  "gap_frames s = concat (map (\<lambda>x. case snd x of GapWait fr \<Rightarrow> [fr] | _ \<Rightarrow> []) (pending s))"

definition reveal_done :: "state \<Rightarrow> state \<Rightarrow> bool" where
  "reveal_done s s' = list_ex (\<lambda>fr. fr \<notin> set (gap_frames s)) (gap_frames s')"

fun reveals :: "page \<Rightarrow> event list \<Rightarrow> state \<Rightarrow> item list list list" where
  "reveals p [] s = []"
| "reveals p (e # es) s =
     (let s' = step p e s
      in (if reveal_done s s' then [shown p s'] else []) @ reveals p es s')"

text \<open>The state outside the narration container and the timers.\<close>

definition outside_lines :: "state \<Rightarrow> nat \<times> nat list \<times> jstring \<times> bool \<times> bool \<times> bool \<times> jstring \<times> bool \<times> bool" where
  "outside_lines s = (overlayRunId s, selectedFiles s, selectedTrainType s, overlay_hidden s,
     aria_hidden s, title_hidden s, dots_text s, lottie_loaded s, lottie_playing s)"

text \<open>
  The number of timer firings a run needs: from a gap wait to the end of the queue, and
  for the whole queue after the call of \<^verbatim>\<open>showProcessingOverlay\<close>. The flag tells the
  layout (line elements with a fade, or the legacy element).
\<close>

fun steps_after :: "bool \<Rightarrow> jstring list \<Rightarrow> nat" where
  "steps_after un [] = 1"
| "steps_after un (l # ls) = (if un then 2 else 1) + (if un then Suc (length l) else length l) + steps_after un ls"

definition run_length :: "page \<Rightarrow> nat" where
  "run_length p =
     (case overlay_lines p of
        [] \<Rightarrow> 0
      | l # ls \<Rightarrow> (if has_lines p then Suc (length l) else length l) + steps_after (has_lines p) ls)"

text \<open>
  Sentence-ending punctuation, in the words of the specification; a positive number
  (plus infinity is one), and a count hint that is a positive finite number.
\<close>

definition spec_sentence_ending :: "nat \<Rightarrow> bool" where
  "spec_sentence_ending ch =
     (ch = of_char CHR ''.'' \<or> ch = of_char CHR ''!'' \<or> ch = of_char CHR ''?'')"

fun js_positive :: "jsnum \<Rightarrow> bool" where
  "js_positive (Fin n) = (0 < n)"
| "js_positive (Frac q) = (0 < q)"
| "js_positive PosInf = True"
| "js_positive _ = False"

fun positive_finite_number :: "jsval \<Rightarrow> bool" where
  "positive_finite_number (JNum (Fin n)) = (0 < n)"
| "positive_finite_number (JNum (Frac q)) = (0 < q)"
| "positive_finite_number _ = False"

text \<open>\<^verbatim>\<open>Number(v)\<close> returns a number: it does not throw.\<close>

definition converts :: "jsval \<Rightarrow> bool" where
  "converts v = (case Number_of v of Inl _ \<Rightarrow> False | Inr _ \<Rightarrow> True)"

text \<open>
  A page with every element and the queue \<open>["A.", "B"]\<close>, a page with no element at
  all, and the state right after the script has loaded, with three files selected.
\<close>

definition scenario_page :: page where
  "scenario_page = \<lparr>has_overlay = True, has_lines = True, has_sub = True, has_title = True,
     has_dots = True, lottie_ok = True, overlay_lines = [js_str ''A.'', js_str ''B'']\<rparr>"

definition bare_page :: page where
  "bare_page = \<lparr>has_overlay = False, has_lines = False, has_sub = False, has_title = False,
     has_dots = False, lottie_ok = False, overlay_lines = OVERLAY_LINES\<rparr>"

definition blank_node :: node where
  "blank_node = \<lparr>cls_show = False, cls_hide = False, kids = []\<rparr>"

definition page_load :: state where
  "page_load = \<lparr>overlayRunId = 0, next_id = 0, heap = (\<lambda>_. blank_node), lines_kids = [],
     sub_kids = [], dots_text = [], title_hidden = False, overlay_hidden = True,
     aria_hidden = True, lottie_loaded = False, lottie_playing = False,
     selectedFiles = [0, 1, 2], selectedTrainType = js_str ''pdf'', pending = []\<rparr>"

text \<open>The characters among the children of an element, carets left out.\<close>

fun texts :: "item list \<Rightarrow> nat list" where
  "texts [] = []"
| "texts (Txt ch # xs) = ch # texts xs"
| "texts (Caret c # xs) = texts xs"

text \<open>
  Well-formed parked continuations. Element and caret numbers are below the next number
  to be given out, a captured identity is at most the counter, and a fade is only parked
  by a run that uses line elements. \<open>seq_cont\<close> tells the continuations of the
  overlay sequence from those of \<^verbatim>\<open>showProcessingSuccess\<close>; \<open>old_cont R b\<close> holds of
  the continuations of sequence runs with identity at most \<open>R\<close> and numbers below \<open>b\<close>.
\<close>

fun target_below :: "nat \<Rightarrow> target \<Rightarrow> bool" where
  "target_below b (NodeT n) = (n < b)"
| "target_below b SubT = True"

fun node_below :: "nat \<Rightarrow> nat option \<Rightarrow> bool" where
  "node_below b None = True"
| "node_below b (Some n) = (n < b)"

definition wf_cont :: "nat \<Rightarrow> nat \<Rightarrow> cont \<Rightarrow> bool" where
  "wf_cont R b k =
     (case k of
        CharWait r el c rest kk \<Rightarrow>
          r \<le> R \<and> c < b \<and> target_below b el \<and>
          (case kk of SeqK fr \<Rightarrow> f_runId fr \<le> R \<and> node_below b (f_currentNode fr) | SuccK \<Rightarrow> True)
      | FadeWait fr l \<Rightarrow> f_runId fr \<le> R \<and> f_useNodes fr \<and> node_below b (f_currentNode fr)
      | GapWait fr \<Rightarrow> f_runId fr \<le> R \<and> node_below b (f_currentNode fr)
      | SettleWait \<Rightarrow> True
      | RafShow n \<Rightarrow> True)"

definition seq_cont :: "cont \<Rightarrow> bool" where
  "seq_cont k = (case k of CharWait _ _ _ _ SuccK \<Rightarrow> False | SettleWait \<Rightarrow> False | _ \<Rightarrow> True)"

definition old_cont :: "nat \<Rightarrow> nat \<Rightarrow> cont \<Rightarrow> bool" where
  "old_cont R b k =
     (case k of
        CharWait r el c rest kk \<Rightarrow>
          r \<le> R \<and> c < b \<and> target_below b el \<and>
          (case kk of SeqK fr \<Rightarrow> f_runId fr \<le> R | SuccK \<Rightarrow> False)
      | FadeWait fr l \<Rightarrow>
          f_runId fr \<le> R \<and> f_useNodes fr \<and>
          (case f_currentNode fr of Some n \<Rightarrow> n < b | None \<Rightarrow> True)
      | GapWait fr \<Rightarrow> f_runId fr \<le> R
      | SettleWait \<Rightarrow> False
      | RafShow n \<Rightarrow> True)"

definition wf_list :: "nat \<Rightarrow> nat \<Rightarrow> (wake \<times> cont) list \<Rightarrow> bool" where
  "wf_list R b ps = list_all (\<lambda>x. wf_cont R b (snd x)) ps"

definition well_formed :: "state \<Rightarrow> bool" where
  "well_formed s = list_all (\<lambda>x. wf_cont (overlayRunId s) (next_id s) (snd x)) (pending s)"

definition only_sequence_runs :: "state \<Rightarrow> bool" where
  "only_sequence_runs s = list_all (\<lambda>x. old_cont (overlayRunId s) (next_id s) (snd x)) (pending s)"

text \<open>
  The states the script can reach: from any state with nothing parked, by calls of the
  entry points and by timers firing.
\<close>

inductive reachable :: "page \<Rightarrow> state \<Rightarrow> bool" for p :: page where
  init: "pending s = [] \<Longrightarrow> reachable p s"
| step: "reachable p s \<Longrightarrow> reachable p (step p e s)"

text \<open>
  The progress of a completion run started in a state with counter \<open>R\<close> and next number
  \<open>b\<close>: \<open>j\<close> characters of the message typed, the message typed in full and the settle
  delay parked, or the overlay hidden. \<open>lines_ok\<close> says that the message element comes
  first in the container and every other attached element holds no character.
\<close>

definition lines_ok :: "nat \<Rightarrow> state \<Rightarrow> bool" where
  "lines_ok b t =
     (\<exists>stale. lines_kids t = b # stale \<and>
        (\<forall>n\<in>set stale. b < n \<and> n < next_id t \<and> texts (kids (heap t n)) = []))"

type_synonym outside = "nat \<times> nat list \<times> jstring \<times> bool \<times> bool \<times> bool \<times> jstring \<times> bool \<times> bool"

definition msg_el :: "nat \<Rightarrow> container \<Rightarrow> target" where
  "msg_el b c = (if c = LinesC then NodeT b else SubT)"

definition msg_caret :: "nat \<Rightarrow> container \<Rightarrow> nat" where
  "msg_caret b c = (if c = LinesC then Suc b else b)"

definition not_old :: "nat \<Rightarrow> nat \<Rightarrow> state \<Rightarrow> cont list" where
  "not_old R b t = filter (\<lambda>k. \<not> old_cont R b k) (map snd (pending t))"

definition succ_typing ::
  "nat \<Rightarrow> nat \<Rightarrow> container \<Rightarrow> outside
     \<Rightarrow> nat \<Rightarrow> state \<Rightarrow> bool" where
  "succ_typing R b c out j t \<longleftrightarrow>
     outside_lines t = out \<and> overlayRunId t = Suc R \<and> j \<le> length success_msg
     \<and> get_kids (msg_el b c) t = map Txt (take j success_msg) @ [Caret (msg_caret b c)]
     \<and> not_old R b t = [CharWait (Suc R) (msg_el b c) (msg_caret b c) (drop j success_msg) SuccK]
     \<and> msg_caret b c < next_id t
     \<and> (c = LinesC \<longrightarrow> lines_ok b t)"

definition succ_settling ::
  "nat \<Rightarrow> nat \<Rightarrow> container \<Rightarrow> outside
     \<Rightarrow> state \<Rightarrow> bool" where
  "succ_settling R b c out t \<longleftrightarrow>
     outside_lines t = out \<and> overlayRunId t = Suc R
     \<and> get_kids (msg_el b c) t = map Txt success_msg
     \<and> not_old R b t = [SettleWait]
     \<and> msg_caret b c < next_id t
     \<and> (c = LinesC \<longrightarrow> lines_ok b t)"

definition succ_done :: "page \<Rightarrow> nat \<Rightarrow> nat \<Rightarrow> state \<Rightarrow> bool" where
  "succ_done p R b t \<longleftrightarrow>
     overlayRunId t = Suc (Suc R) \<and> selectedFiles t = [] \<and> selectedTrainType t = []
     \<and> (has_overlay p \<longrightarrow> overlay_hidden t \<and> aria_hidden t)
     \<and> not_old R b t = [] \<and> b < next_id t"

definition succ_inv ::
  "page \<Rightarrow> nat \<Rightarrow> nat \<Rightarrow> container \<Rightarrow> outside
     \<Rightarrow> state \<Rightarrow> bool" where
  "succ_inv p R b c out t \<longleftrightarrow>
     (\<exists>j. succ_typing R b c out j t) \<or> succ_settling R b c out t \<or> succ_done p R b t"

text \<open>
  What can be seen of a completion run started in state \<open>s\<close>: until its own hide, the
  container shows a prefix of the completion message in its first element and no
  character anywhere else, and files, overlay and counter are as the call left them;
  afterwards the files are cleared and the overlay is hidden.
\<close>

definition success_safe :: "page \<Rightarrow> state \<Rightarrow> state \<Rightarrow> bool" where
  "success_safe p s t \<longleftrightarrow>
     (overlayRunId t = overlayRunId s + 1 \<and> selectedFiles t = selectedFiles s
        \<and> overlay_hidden t = overlay_hidden s
        \<and> (\<exists>j q. map texts (shown p t) = take j success_msg # replicate q []))
     \<or> (overlayRunId t = overlayRunId s + 2 \<and> selectedFiles t = []
        \<and> (has_overlay p \<longrightarrow> overlay_hidden t))"

section \<open>Basic facts\<close>

lemmas dom_defs = get_kids_def set_kids_def remove_child_def appendChild_def append_text_def
  sleep_def requestAnimationFrame_def

lemmas num_defs = count_of_def default_1_def js_or_def Math_max_def Math_min_def gapMs_of_def
  LINE_GAP_BASE_MS_def

lemmas seq_defs = cancelOverlaySequence_def ensureLinesContainer_def resume_caller_def tw_loop_def
  typewriterLine_def seq_body_def seq_iter_def after_fade_def runOverlaySequence_def
  initOverlayLottie_def showProcessingOverlay_def hideProcessingOverlay_def
  showProcessingSuccess_def clearFilesAfterSuccess_def resetTrainingType_def after_settle_def
  resume_def fire_def step_def exec_def

lemmas scenario_defs = scenario_page_def page_load_def blank_node_def js_str_def char_delay_def
  extra_of_def LINE_TYPE_SPEED_MS_def LINE_FADE_MS_def

lemmas run_defs = seq_defs dom_defs num_defs scenario_defs Let_def

subsection \<open>Numbers\<close>

lemma bitlen_pos: "0 < n \<Longrightarrow> 0 < bitlen n"
proof (induction n rule: bitlen.induct)
  case (1 n)
  have "0 \<le> bitlen (n div 2)"
  proof (cases "0 < n div 2")
    case True
    then show ?thesis using 1 by simp
  next
    case False
    then show ?thesis by (simp add: bitlen.simps[of "n div 2"])
  qed
  then show ?case using 1(2) by (subst bitlen.simps) simp
qed

lemma bitlen_lower: "0 < n \<Longrightarrow> 2 ^ nat (bitlen n - 1) \<le> n"
proof (induction n rule: bitlen.induct)
  case (1 n)
  show ?case
  proof (cases "0 < n div 2")
    case True
    then have ih: "2 ^ nat (bitlen (n div 2) - 1) \<le> n div 2" using 1 by simp
    have p: "0 < bitlen (n div 2)" using True by (rule bitlen_pos)
    have "bitlen n = 1 + bitlen (n div 2)" using 1(2) by (subst bitlen.simps) simp
    then have "nat (bitlen n - 1) = Suc (nat (bitlen (n div 2) - 1))" using p by simp
    then have "(2::int) ^ nat (bitlen n - 1) = 2 * 2 ^ nat (bitlen (n div 2) - 1)" by simp
    also have "\<dots> \<le> 2 * (n div 2)" using ih by simp
    also have "\<dots> \<le> n" by simp
    finally show ?thesis .
  next
    case False
    then have "bitlen (n div 2) = 0" by (simp add: bitlen.simps[of "n div 2"])
    then have "bitlen n = 1" using 1(2) by (subst bitlen.simps) simp
    then show ?thesis using 1(2) by simp
  qed
qed

lemma pow2_nonneg: "0 \<le> e \<Longrightarrow> pow2 e = 2 ^ nat e"
  by (simp add: pow2_def)

lemma pow2_nonpos: "e \<le> 0 \<Longrightarrow> pow2 e = 1 / 2 ^ nat (- e)"
  by (cases "e = 0") (simp_all add: pow2_def)

lemma round_half_even_int: "round_half_even (of_int z) = z"
  by (simp add: round_half_even_def)

lemma round_half_even_ge: "of_int z \<le> r \<Longrightarrow> z \<le> round_half_even r"
proof -
  assume "of_int z \<le> r"
  then have "z \<le> \<lfloor>r\<rfloor>" by (simp add: le_floor_iff)
  then show ?thesis by (simp add: round_half_even_def Let_def)
qed

lemma fin_of_int: "fin_of (of_int z) = Fin z"
  by (simp add: fin_of_def)

lemma js_le_fin_of: "js_le (Fin k) (fin_of y) = (of_int k \<le> y)"
proof (cases "y = of_int \<lfloor>y\<rfloor>")
  case True
  then have "fin_of y = Fin \<lfloor>y\<rfloor>" by (simp add: fin_of_def)
  then show ?thesis by (simp add: le_floor_iff)
next
  case False
  then show ?thesis by (simp add: fin_of_def)
qed

lemma ilog2_int: "0 < a \<Longrightarrow> ilog2 (of_int a) = bitlen a - 1"
  by (simp add: ilog2_def)

text \<open>An integer up to \<open>2^53\<close> is a double: rounding leaves it as it is.\<close>

lemma round_double_exact:
  assumes "\<bar>m\<bar> \<le> 2 ^ 53"
  shows "round_double (of_int m) = Fin m"
proof (cases "m = 0")
  case True
  then show ?thesis by (simp add: round_double_def)
next
  case False
  define a where "a = \<bar>m\<bar>"
  define e where "e = bitlen a - 1"
  have a: "0 < a" "a \<le> 2 ^ 53" using False assms by (simp_all add: a_def)
  have e0: "0 \<le> e" using bitlen_pos[OF a(1)] by (simp add: e_def)
  have lo: "2 ^ nat e \<le> a" using bitlen_lower[OF a(1)] by (simp add: e_def)
  have "(2::int) ^ nat e \<le> 2 ^ 53" using lo a(2) by simp
  then have "nat e \<le> 53" by (intro power_le_imp_le_exp[of 2]) simp_all
  then have e53: "e \<le> 53" by simp
  have il: "ilog2 (of_int a) = e" using a(1) by (simp add: ilog2_int e_def)
  have mx: "max e (- 1022) = e" using e0 by simp
  obtain z where z: "of_int a / pow2 (e - 52) = (of_int z :: rat)"
  proof (cases "e \<le> 52")
    case True
    then have "pow2 (e - 52) = 1 / 2 ^ nat (52 - e)" using pow2_nonpos[of "e - 52"] by simp
    then have "of_int a / pow2 (e - 52) = (of_int (a * 2 ^ nat (52 - e)) :: rat)" by simp
    then show ?thesis using that by blast
  next
    case False
    then have e: "e = 53" using e53 by simp
    then have "a = 2 ^ 53" using lo a(2) by simp
    moreover have "pow2 (e - 52) = 2" using e by (simp add: pow2_def)
    ultimately have "of_int a / pow2 (e - 52) = (of_int (2 ^ 52) :: rat)" by simp
    then show ?thesis using that by blast
  qed
  have q0: "pow2 (e - 52) \<noteq> 0" by (simp add: pow2_def)
  have y: "of_int (round_half_even (of_int a / pow2 (e - 52))) * pow2 (e - 52) = (of_int a :: rat)"
    unfolding z round_half_even_int using z q0 by (simp add: field_simps)
  have ab: "\<bar>of_int m :: rat\<bar> = of_int a" by (simp add: a_def)
  have big: "\<not> (2 ^ 1024 \<le> (of_int a :: rat))"
  proof -
    have "(of_int a :: rat) \<le> of_int (2 ^ 53)" using a(2) by (simp only: of_int_le_iff)
    then show ?thesis by simp
  qed
  have "round_double (of_int m) = fin_of (if 0 < m then of_int a else - of_int a)"
    using False big by (simp add: round_double_def ab il mx y Let_def)
  also have "\<dots> = Fin m" using False
    by (cases "0 < m") (simp_all add: a_def fin_of_int flip: of_int_minus)
  finally show ?thesis .
qed

text \<open>Rounding does not go below an integer up to \<open>2^53\<close> that the argument reaches.\<close>

lemma round_double_ge:
  assumes k: "1 \<le> k" "k \<le> 2 ^ 53" and x: "of_int k \<le> x"
  shows "js_le (Fin k) (round_double x)"
proof -
  define a where "a = \<lfloor>x\<rfloor>"
  define e where "e = bitlen a - 1"
  define q where "q = pow2 (e - 52)"
  define y where "y = of_int (round_half_even (x / q)) * q"
  have x1: "1 \<le> x" using k x by (meson of_int_1_le_iff order_trans)
  have xp: "0 < x" "x \<noteq> 0" "\<bar>x\<bar> = x" using x1 by simp_all
  have a: "0 < a" using x1 by (simp add: a_def)
  have ax: "of_int a \<le> x" by (simp add: a_def)
  have e0: "0 \<le> e" using bitlen_pos[OF a] by (simp add: e_def)
  have lo: "2 ^ nat e \<le> a" using bitlen_lower[OF a] by (simp add: e_def)
  have il: "ilog2 x = e" using x1 by (simp add: ilog2_def e_def a_def)
  have mx: "max e (- 1022) = e" using e0 by simp
  have ky: "of_int k \<le> y"
  proof (cases "e \<le> 52")
    case True
    define j where "j = nat (52 - e)"
    have qq: "q = 1 / 2 ^ j" using True pow2_nonpos[of "e - 52"] by (simp add: q_def j_def)
    have "of_int (k * 2 ^ j) \<le> x * 2 ^ j" using x by simp
    then have "k * 2 ^ j \<le> round_half_even (x / q)"
      by (intro round_half_even_ge) (simp add: qq)
    then have "(of_int (k * 2 ^ j) :: rat) \<le> of_int (round_half_even (x / q))"
      by (simp only: of_int_le_iff)
    then have "(of_int (k * 2 ^ j) :: rat) * q \<le> of_int (round_half_even (x / q)) * q"
      by (intro mult_right_mono) (simp_all add: qq)
    then show ?thesis by (simp add: y_def qq)
  next
    case False
    define j where "j = nat (e - 52)"
    have qq: "q = 2 ^ j" using False pow2_nonneg[of "e - 52"] by (simp add: q_def j_def)
    have ej: "nat e = 52 + j" using False by (simp add: j_def)
    have "(of_int (2 ^ nat e) :: rat) \<le> of_int a" using lo by (simp only: of_int_le_iff)
    then have "(of_int (2 ^ nat e) :: rat) \<le> x" using ax by (rule order_trans)
    then have "(2 ^ nat e :: rat) \<le> x" by simp
    then have "(of_int (2 ^ 52) :: rat) \<le> x / q" by (simp add: qq ej power_add field_simps)
    then have "2 ^ 52 \<le> round_half_even (x / q)" by (rule round_half_even_ge)
    then have "(of_int (2 ^ 52) :: rat) \<le> of_int (round_half_even (x / q))"
      by (simp only: of_int_le_iff)
    then have "(of_int (2 ^ 52) :: rat) * q \<le> y" unfolding y_def
      by (intro mult_right_mono) (simp_all add: qq)
    then have "(2 ^ nat e :: rat) \<le> y" by (simp add: qq ej power_add)
    moreover have "(2::rat) ^ 53 \<le> 2 ^ nat e" using False by (intro power_increasing) simp_all
    moreover have "(of_int k :: rat) \<le> of_int (2 ^ 53)" using k(2) by (simp only: of_int_le_iff)
    ultimately show ?thesis by simp
  qed
  have "round_double x = (if 2 ^ 1024 \<le> y then PosInf else fin_of y)"
    using xp by (simp add: round_double_def il mx Let_def y_def q_def)
  then show ?thesis using ky by (simp add: js_le_fin_of)
qed

lemma round_double_numeral [simp]:
  "numeral w \<le> (2 ^ 53 :: int) \<Longrightarrow> round_double (numeral w) = Fin (numeral w)"
  using round_double_exact[of "numeral w"] by simp

lemma round_double_0 [simp]: "round_double 0 = Fin 0"
  by (simp add: round_double_def)

lemma round_double_1 [simp]: "round_double 1 = Fin 1"
  using round_double_exact[of 1] by simp

lemma round_double_not_NaN [simp]: "round_double x \<noteq> NaN"
  by (simp add: round_double_def fin_of_def Let_def)

text \<open>A positive value that is a multiple of the unit of its exponent is a double.\<close>

lemma round_double_pos:
  assumes "0 < x" and "ilog2 x = e" and "- 1022 \<le> e"
    and "x / pow2 (e - 52) = of_int z" and "x < 2 ^ 1024"
  shows "round_double x = fin_of x"
proof -
  have q0: "pow2 (e - 52) \<noteq> 0" by (simp add: pow2_def)
  have y: "of_int (round_half_even (x / pow2 (e - 52))) * pow2 (e - 52) = x"
    unfolding assms(4) round_half_even_int using assms(4) q0 by (simp add: field_simps)
  have mx: "max e (- 1022) = e" using assms(3) by simp
  show ?thesis using assms(1,5) by (simp add: round_double_def Let_def assms(2) mx y)
qed

lemma round_double_three_halves: "round_double (3 / 2) = Frac (3 / 2)"
proof -
  have fl: "\<lfloor>3 / 2 :: rat\<rfloor> = 1" by linarith
  have "bitlen 1 = 1" by (simp add: bitlen.simps)
  then have i: "ilog2 (3 / 2) = 0" using fl by (simp add: ilog2_def)
  have z: "(3 / 2 :: rat) / pow2 (0 - 52) = of_int (3 * 2 ^ 51)" by (simp add: pow2_def)
  have "round_double (3 / 2) = fin_of (3 / 2)"
    by (rule round_double_pos[OF _ i _ z]) simp_all
  then show ?thesis using fl by (simp add: fin_of_def)
qed

lemma js_le_total: "a \<noteq> NaN \<Longrightarrow> b \<noteq> NaN \<Longrightarrow> \<not> js_le a b \<Longrightarrow> js_le b a"
  by (cases a; cases b) auto

lemma Number_of_simps [simp]:
  "Number_of JUndefined = Inr NaN"
  "Number_of JNull = Inr (Fin 0)"
  "Number_of (JBool b) = Inr (Fin (if b then 1 else 0))"
  "Number_of (JNum n) = Inr n"
  "Number_of JSymbol = Inl TypeError"
  "Number_of (JStr s) = Inr (StringToNumber s)"
  "Number_of (JBigInt k) = Inr (round_double (of_int k))"
  "Number_of (JObj (Inl e)) = Inl e"
  by (simp_all add: Number_of_def ToPrimitive_def)

lemma Number_of_object:
  "Number_of (JObj (Inr p)) = (case p of JObj _ \<Rightarrow> Inl TypeError | _ \<Rightarrow> Number_of p)"
  by (cases p) (simp_all add: Number_of_def ToPrimitive_def)

lemmas parse_defs = StringToNumber_def trim_def is_ws_def js_str_def nondecimal_def
  unsigned_decimal_def exponent_part_def signed_integer_def digits_in_def is_digit_in_def
  digit_val_def pow10_def Let_def

subsection \<open>Transitions\<close>

lemma exec_Nil [simp]: "exec p [] s = s" by (simp add: exec_def)

lemma exec_Cons [simp]: "exec p (e # es) s = exec p es (step p e s)" by (simp add: exec_def)

lemma exec_append [simp]: "exec p (es @ fs) s = exec p fs (exec p es s)" by (simp add: exec_def)

lemma step_Fire [simp]: "step p (Fire i) s = fire p i s" by (simp add: step_def)

lemma fire_single:
  "pending s = [(w, k)] \<Longrightarrow> fire p 0 s = resume p k (s\<lparr>pending := []\<rparr>)"
  by (simp add: fire_def)

lemma fire_head:
  "pending s = (w, k) # ps \<Longrightarrow> fire p 0 s = resume p k (s\<lparr>pending := ps\<rparr>)"
  by (simp add: fire_def)

lemma fire_last:
  "pending s = ps @ [(w, k)] \<Longrightarrow> fire p (length ps) s = resume p k (s\<lparr>pending := ps\<rparr>)"
  by (simp add: fire_def nth_append)

lemma get_set_same [simp]: "get_kids el (set_kids el ks s) = ks"
  by (simp add: get_kids_def set_kids_def split: target.splits)

lemma set_set_same [simp]: "set_kids el ks (set_kids el ks' s) = set_kids el ks s"
  by (simp add: set_kids_def split: target.splits)

lemma get_kids_pending [simp]: "get_kids el (s\<lparr>pending := ps\<rparr>) = get_kids el s"
  by (simp add: get_kids_def split: target.splits)

lemma set_kids_pending [simp]:
  "set_kids el ks (s\<lparr>pending := ps\<rparr>) = (set_kids el ks s)\<lparr>pending := ps\<rparr>"
  by (simp add: set_kids_def split: target.splits)

lemma removeAll_caret_txt [simp]: "removeAll (Caret c) (map Txt xs) = map Txt xs"
  by (induction xs) simp_all

lemma upd_order:
  "s\<lparr>heap := h, next_id := a\<rparr> = s\<lparr>next_id := a, heap := h\<rparr>"
  "s\<lparr>lines_kids := k, next_id := a\<rparr> = s\<lparr>next_id := a, lines_kids := k\<rparr>"
  "s\<lparr>sub_kids := u, next_id := a\<rparr> = s\<lparr>next_id := a, sub_kids := u\<rparr>"
  "s\<lparr>pending := q, next_id := a\<rparr> = s\<lparr>next_id := a, pending := q\<rparr>"
  "s\<lparr>lines_kids := k, heap := h\<rparr> = s\<lparr>heap := h, lines_kids := k\<rparr>"
  "s\<lparr>sub_kids := u, heap := h\<rparr> = s\<lparr>heap := h, sub_kids := u\<rparr>"
  "s\<lparr>pending := q, heap := h\<rparr> = s\<lparr>heap := h, pending := q\<rparr>"
  "s\<lparr>sub_kids := u, lines_kids := k\<rparr> = s\<lparr>lines_kids := k, sub_kids := u\<rparr>"
  "s\<lparr>pending := q, lines_kids := k\<rparr> = s\<lparr>lines_kids := k, pending := q\<rparr>"
  "s\<lparr>pending := q, sub_kids := u\<rparr> = s\<lparr>sub_kids := u, pending := q\<rparr>"
  by simp_all

lemma default_1_idem [simp]: "default_1 (default_1 v) = default_1 v"
  by (simp add: default_1_def)

lemma count_of_defined: "converts v \<Longrightarrow> \<exists>cnt. count_of (default_1 v) = Inr cnt"
  by (cases "v = JUndefined")
    (auto simp: converts_def count_of_def default_1_def split: sum.splits)

lemma resume_caller_parked: "resume_caller k s = s\<lparr>pending := pending s @ [parked k]\<rparr>"
  by (cases k) (simp_all add: resume_caller_def parked_def sleep_def)

subsection \<open>The counter\<close>

lemma overlayRunId_resume_caller [simp]: "overlayRunId (resume_caller k s) = overlayRunId s"
  by (simp add: resume_caller_def sleep_def split: kont.splits)

lemma overlayRunId_set_kids [simp]: "overlayRunId (set_kids el ks s) = overlayRunId s"
  by (simp add: set_kids_def split: target.splits)

lemma overlayRunId_tw_loop [simp]: "overlayRunId (tw_loop r el c cs k s) = overlayRunId s"
  by (simp add: tw_loop_def remove_child_def appendChild_def append_text_def sleep_def Let_def
      split: list.splits)

lemma overlayRunId_typewriterLine [simp]:
  "overlayRunId (typewriterLine el text r k s) = overlayRunId s"
  by (simp add: typewriterLine_def appendChild_def Let_def)

lemma overlayRunId_seq_body [simp]: "overlayRunId (seq_body fr line s) = overlayRunId s"
  by (simp add: seq_body_def requestAnimationFrame_def Let_def)

lemma overlayRunId_seq_iter [simp]: "overlayRunId (seq_iter fr s) = overlayRunId s"
  by (simp add: seq_iter_def sleep_def split: list.splits option.splits)

lemma overlayRunId_after_fade [simp]: "overlayRunId (after_fade fr line s) = overlayRunId s"
  by (simp add: after_fade_def split: option.splits)

lemma overlayRunId_cancel [simp]:
  "overlayRunId (cancelOverlaySequence p s) = overlayRunId s + 1"
  by (simp add: cancelOverlaySequence_def Let_def)

lemma overlayRunId_hide [simp]:
  "overlayRunId (hideProcessingOverlay p s) = overlayRunId s + 1"
  by (simp add: hideProcessingOverlay_def Let_def)

lemma overlayRunId_after_settle [simp]: "overlayRunId (after_settle p s) = overlayRunId s + 1"
  by (simp add: after_settle_def resetTrainingType_def clearFilesAfterSuccess_def)

lemma overlayRunId_runOverlaySequence:
  "overlayRunId (snd (runOverlaySequence p v s)) =
     (if ensureLinesContainer p = None then overlayRunId s else overlayRunId s + 1)"
  by (simp add: runOverlaySequence_def Let_def split: option.splits sum.splits)

lemma overlayRunId_show:
  "showProcessingOverlay p v s = Inr s' \<Longrightarrow>
   overlayRunId s' =
     (if \<not> has_overlay p then overlayRunId s
      else if ensureLinesContainer p = None then overlayRunId s + 1 else overlayRunId s + 2)"
  by (auto simp: showProcessingOverlay_def Let_def overlayRunId_runOverlaySequence initOverlayLottie_def
      split: if_splits)

lemma overlayRunId_success:
  "overlayRunId (showProcessingSuccess p s) =
     (if ensureLinesContainer p = None then overlayRunId s + 2 else overlayRunId s + 1)"
  by (simp add: showProcessingSuccess_def Let_def split: option.splits)

lemma overlayRunId_resume:
  "overlayRunId (resume p k s) = (if k = SettleWait then overlayRunId s + 1 else overlayRunId s)"
  by (cases k) (simp_all add: resume_def)

lemma overlayRunId_fire: "overlayRunId s \<le> overlayRunId (fire p i s)"
  by (simp add: fire_def overlayRunId_resume)

lemma show_returns: "\<exists>s'. showProcessingOverlay p v s = Inr s'"
  by (simp add: showProcessingOverlay_def Let_def)

lemma overlayRunId_step: "overlayRunId s \<le> overlayRunId (step p e s)"
proof (cases e)
  case (Start v)
  obtain s' where s': "showProcessingOverlay p v s = Inr s'" using show_returns by blast
  with Start show ?thesis using overlayRunId_show[OF s'] by (simp add: step_def)
next
  case Succeed
  then show ?thesis by (simp add: step_def overlayRunId_success)
next
  case Hide
  then show ?thesis by (simp add: step_def)
next
  case (Fire i)
  then show ?thesis by (simp add: step_def overlayRunId_fire)
qed

subsection \<open>What gets parked\<close>

lemma length_pending_resume_caller [simp]:
  "length (pending (resume_caller k s)) = Suc (length (pending s))"
  by (simp add: resume_caller_def sleep_def split: kont.splits)

lemma pending_set_kids [simp]: "pending (set_kids el ks s) = pending s"
  by (simp add: set_kids_def split: target.splits)

lemma length_pending_tw_loop [simp]:
  "length (pending (tw_loop r el c cs k s)) = Suc (length (pending s))"
  by (simp add: tw_loop_def remove_child_def appendChild_def append_text_def sleep_def Let_def
      split: list.splits)

lemma length_pending_typewriterLine [simp]:
  "length (pending (typewriterLine el text r k s)) = Suc (length (pending s))"
  by (simp add: typewriterLine_def appendChild_def Let_def)

lemma length_pending_seq_body:
  "length (pending (seq_body fr line s)) > length (pending s)"
  by (simp add: seq_body_def requestAnimationFrame_def Let_def)

lemma pending_tw_loop:
  "pending (tw_loop r el c cs k s) =
     pending s @ [if cs = [] \<or> r \<noteq> overlayRunId s then parked k
                  else (Timeout (Fin (char_delay (hd cs))), CharWait r el c (tl cs) k)]"
  by (cases cs) (simp_all add: tw_loop_def resume_caller_parked remove_child_def append_text_def
      appendChild_def sleep_def Let_def)

lemma pending_typewriterLine:
  "pending (typewriterLine el text r k s) =
     pending s @ [if text = [] \<or> r \<noteq> overlayRunId s then parked k
                  else (Timeout (Fin (char_delay (hd text))), CharWait r el (next_id s) (tl text) k)]"
  by (cases el) (simp_all add: typewriterLine_def pending_tw_loop appendChild_def Let_def set_kids_def)

lemma pending_seq_body:
  "pending (seq_body fr l s) =
     pending s @
     (if f_useNodes fr then
        [(AnimationFrame, RafShow (next_id s)),
         if l = [] \<or> f_runId fr \<noteq> overlayRunId s
         then parked (SeqK (fr\<lparr>f_currentNode := Some (next_id s)\<rparr>))
         else (Timeout (Fin (char_delay (hd l))),
               CharWait (f_runId fr) (NodeT (next_id s)) (Suc (next_id s)) (tl l)
                 (SeqK (fr\<lparr>f_currentNode := Some (next_id s)\<rparr>)))]
      else
        [if l = [] \<or> f_runId fr \<noteq> overlayRunId s then parked (SeqK fr)
         else (Timeout (Fin (char_delay (hd l))),
               CharWait (f_runId fr) SubT (next_id s) (tl l) (SeqK fr))])"
  by (simp add: seq_body_def pending_typewriterLine requestAnimationFrame_def Let_def)

lemma pending_tw_loop_valid:
  "runId = overlayRunId s \<Longrightarrow>
   pending (tw_loop runId el caret (ch # rest) k s) =
     pending s @ [(Timeout (Fin (char_delay ch)), CharWait runId el caret rest k)]"
  by (cases el) (simp_all add: tw_loop_def dom_defs Let_def)

lemma tw_loop_aborts_iff:
  "tw_loop r el c (ch # rest) k s = resume_caller k s \<longleftrightarrow> r \<noteq> overlayRunId s"
proof
  assume eq: "tw_loop r el c (ch # rest) k s = resume_caller k s"
  show "r \<noteq> overlayRunId s"
  proof
    assume "r = overlayRunId s"
    then have "last (pending (tw_loop r el c (ch # rest) k s)) =
        (Timeout (Fin (char_delay ch)), CharWait r el c rest k)"
      by (cases el) (simp_all add: tw_loop_def dom_defs Let_def)
    moreover have "snd (last (pending (resume_caller k s))) \<noteq> CharWait r el c rest k"
      by (cases k) (simp_all add: resume_caller_def sleep_def)
    ultimately show False using eq by simp
  qed
next
  assume "r \<noteq> overlayRunId s"
  then show "tw_loop r el c (ch # rest) k s = resume_caller k s" by (simp add: tw_loop_def)
qed

lemma seq_iter_stops_iff:
  "seq_iter fr s = s \<longleftrightarrow> f_rest fr = [] \<or> f_runId fr \<noteq> overlayRunId s"
proof
  assume eq: "seq_iter fr s = s"
  show "f_rest fr = [] \<or> f_runId fr \<noteq> overlayRunId s"
  proof (rule ccontr)
    assume "\<not> ?thesis"
    then obtain line rest where r: "f_rest fr = line # rest" and v: "f_runId fr = overlayRunId s"
      by (cases "f_rest fr") auto
    have "length (pending (seq_iter fr s)) > length (pending s)"
      using r v length_pending_seq_body[of s "fr\<lparr>f_rest := rest\<rparr>" line]
      by (simp add: seq_iter_def sleep_def split: option.splits)
    with eq show False by simp
  qed
next
  assume "f_rest fr = [] \<or> f_runId fr \<noteq> overlayRunId s"
  then show "seq_iter fr s = s" by (auto simp: seq_iter_def split: list.splits)
qed

lemma captured_seq_body:
  "\<forall>x\<in>set (pending (seq_body fr l s)).
     x \<in> set (pending s) \<or> cont_runId (snd x) = None \<or> cont_runId (snd x) = Some (f_runId fr)"
  by (simp add: pending_seq_body cont_runId_def parked_def)

lemma captured_seq_iter:
  "\<forall>x\<in>set (pending (seq_iter fr s)).
     x \<in> set (pending s) \<or> cont_runId (snd x) = None \<or> cont_runId (snd x) = Some (f_runId fr)"
proof (cases "f_rest fr")
  case Nil
  then show ?thesis by (simp add: seq_iter_def)
next
  case (Cons l ls)
  have "f_runId (fr\<lparr>f_rest := ls\<rparr>) = f_runId fr" by simp
  with captured_seq_body[of "fr\<lparr>f_rest := ls\<rparr>" l s]
  show ?thesis using Cons
    by (auto simp: seq_iter_def sleep_def cont_runId_def split: option.splits)
qed

lemma runOverlaySequence_unfold:
  assumes "ensureLinesContainer p = Some c" and "count_of (default_1 v) = Inr cnt"
  shows "runOverlaySequence p v s =
     (None, seq_iter \<lparr>f_runId = overlayRunId s + 1, f_useNodes = (c = LinesC),
                  f_gapMs = gapMs_of cnt, f_currentNode = None, f_rest = overlay_lines p\<rparr>
        (if c = LinesC then s\<lparr>overlayRunId := overlayRunId s + 1, lines_kids := []\<rparr>
         else s\<lparr>overlayRunId := overlayRunId s + 1, sub_kids := []\<rparr>))"
  using assms by (simp add: runOverlaySequence_def Let_def)

lemma captured_runOverlaySequence:
  assumes "ensureLinesContainer p \<noteq> None"
  shows "\<forall>x\<in>set (pending (snd (runOverlaySequence p v s))).
     x \<in> set (pending s) \<or> cont_runId (snd x) = None
       \<or> cont_runId (snd x) = Some (overlayRunId (snd (runOverlaySequence p v s)))"
proof -
  obtain c where c: "ensureLinesContainer p = Some c" using assms by auto
  show ?thesis
  proof (cases "count_of (default_1 v)")
    case (Inl e)
    then show ?thesis using c by (simp add: runOverlaySequence_def Let_def)
  next
    case (Inr cnt)
    let ?fr = "\<lparr>f_runId = overlayRunId s + 1, f_useNodes = (c = LinesC),
                  f_gapMs = gapMs_of cnt, f_currentNode = None, f_rest = overlay_lines p\<rparr>"
    let ?t = "(if c = LinesC then s\<lparr>overlayRunId := overlayRunId s + 1, lines_kids := []\<rparr>
         else s\<lparr>overlayRunId := overlayRunId s + 1, sub_kids := []\<rparr>)"
    have "pending ?t = pending s" by simp
    with captured_seq_iter[of ?fr ?t]
    show ?thesis
      unfolding runOverlaySequence_unfold[OF c Inr] by simp
  qed
qed

subsection \<open>Symbolic execution of the loop body\<close>

lemma typewriterLine_valid_Cons:
  assumes "overlayRunId s = r"
  shows "typewriterLine el (ch # cs) r k s =
     (set_kids el [Txt ch, Caret (next_id s)] s)\<lparr>next_id := Suc (next_id s),
        pending := pending s @ [(Timeout (Fin (char_delay ch)), CharWait r el (next_id s) cs k)]\<rparr>"
  using assms
  by (cases el) (simp_all add: typewriterLine_def tw_loop_def dom_defs Let_def)

lemma seq_body_nodes_Cons:
  assumes "f_useNodes fr" and "overlayRunId s = f_runId fr"
  shows "seq_body fr (ch # cs) s =
    s\<lparr>next_id := Suc (Suc (next_id s)),
      heap := (heap s)(next_id s := \<lparr>cls_show = False, cls_hide = False,
                 kids = [Txt ch, Caret (Suc (next_id s))]\<rparr>),
      lines_kids := removeAll (next_id s) (lines_kids s) @ [next_id s],
      pending := pending s @ [(AnimationFrame, RafShow (next_id s)),
         (Timeout (Fin (char_delay ch)),
          CharWait (f_runId fr) (NodeT (next_id s)) (Suc (next_id s)) cs
            (SeqK (fr\<lparr>f_currentNode := Some (next_id s)\<rparr>)))]\<rparr>"
  using assms
  by (simp add: seq_body_def typewriterLine_def tw_loop_def dom_defs Let_def)

lemma seq_body_nodes_Nil:
  assumes "f_useNodes fr"
  shows "seq_body fr [] s =
    s\<lparr>next_id := Suc (Suc (next_id s)),
      heap := (heap s)(next_id s := \<lparr>cls_show = False, cls_hide = False, kids = []\<rparr>),
      lines_kids := removeAll (next_id s) (lines_kids s) @ [next_id s],
      pending := pending s @ [(AnimationFrame, RafShow (next_id s)),
         (Timeout (f_gapMs fr), GapWait (fr\<lparr>f_currentNode := Some (next_id s)\<rparr>))]\<rparr>"
  using assms
  by (simp add: seq_body_def typewriterLine_def tw_loop_def resume_caller_def dom_defs Let_def)

lemma seq_body_legacy_Cons:
  assumes "\<not> f_useNodes fr" and "overlayRunId s = f_runId fr"
  shows "seq_body fr (ch # cs) s =
    s\<lparr>next_id := Suc (next_id s),
      sub_kids := [Txt ch, Caret (next_id s)],
      pending := pending s @
        [(Timeout (Fin (char_delay ch)), CharWait (f_runId fr) SubT (next_id s) cs (SeqK fr))]\<rparr>"
  using assms
  by (simp add: seq_body_def typewriterLine_def tw_loop_def dom_defs Let_def)

lemma seq_body_legacy_Nil:
  assumes "\<not> f_useNodes fr"
  shows "seq_body fr [] s =
    s\<lparr>next_id := Suc (next_id s), sub_kids := [],
      pending := pending s @ [(Timeout (f_gapMs fr), GapWait fr)]\<rparr>"
  using assms
  by (simp add: seq_body_def typewriterLine_def tw_loop_def resume_caller_def dom_defs Let_def)

lemma seq_iter_fade:
  assumes "f_rest fr = l # ls" and "overlayRunId s = f_runId fr" and "f_useNodes fr"
    and "f_currentNode fr = Some n"
  shows "seq_iter fr s =
    s\<lparr>heap := (heap s)(n := (heap s n)\<lparr>cls_show := False, cls_hide := True\<rparr>),
      pending := pending s @ [(Timeout (Fin LINE_FADE_MS), FadeWait (fr\<lparr>f_rest := ls\<rparr>) l)]\<rparr>"
  using assms by (simp add: seq_iter_def sleep_def)

lemma seq_iter_first:
  assumes "f_rest fr = l # ls" and "overlayRunId s = f_runId fr"
    and "f_useNodes fr \<longrightarrow> f_currentNode fr = None"
  shows "seq_iter fr s = seq_body (fr\<lparr>f_rest := ls\<rparr>) l s"
  using assms by (auto simp: seq_iter_def)

lemma after_fade_Some:
  assumes "f_currentNode fr = Some n"
  shows "after_fade fr l s =
     seq_body (fr\<lparr>f_currentNode := None\<rparr>) l (s\<lparr>lines_kids := removeAll n (lines_kids s)\<rparr>)"
  using assms by (simp add: after_fade_def)

lemma start_unfold:
  assumes "has_overlay p" and "ensureLinesContainer p = Some c"
    and "count_of (default_1 v) = Inr cnt"
  shows "\<exists>t0. showProcessingOverlay p v s =
           Inr (seq_iter \<lparr>f_runId = overlayRunId s + 2, f_useNodes = (c = LinesC),
                  f_gapMs = gapMs_of cnt, f_currentNode = None, f_rest = overlay_lines p\<rparr> t0)
         \<and> pending t0 = pending s \<and> overlayRunId t0 = overlayRunId s + 2
         \<and> (c = LinesC \<longrightarrow> lines_kids t0 = [])
         \<and> selectedFiles t0 = selectedFiles s \<and> \<not> overlay_hidden t0 \<and> \<not> aria_hidden t0"
proof -
  define s1 where "s1 = cancelOverlaySequence p s"
  define s2 where "s2 = (if has_title p then s1\<lparr>title_hidden := True\<rparr> else s1)"
  define s3 where "s3 = s2\<lparr>overlay_hidden := False, aria_hidden := False\<rparr>"
  define s4 where "s4 = initOverlayLottie p s3"
  define s5 where "s5 = (if lottie_loaded s4 then s4\<lparr>lottie_playing := True\<rparr> else s4)"
  define t0 where "t0 = (if c = LinesC then s5\<lparr>overlayRunId := overlayRunId s5 + 1, lines_kids := []\<rparr>
         else s5\<lparr>overlayRunId := overlayRunId s5 + 1, sub_kids := []\<rparr>)"
  have p1: "pending s1 = pending s" "overlayRunId s1 = overlayRunId s + 1"
    "selectedFiles s1 = selectedFiles s"
    by (simp_all add: s1_def cancelOverlaySequence_def Let_def)
  have p2: "pending s2 = pending s" "overlayRunId s2 = overlayRunId s + 1"
    "selectedFiles s2 = selectedFiles s"
    using p1 by (simp_all add: s2_def)
  have p3: "pending s3 = pending s" "overlayRunId s3 = overlayRunId s + 1"
    "selectedFiles s3 = selectedFiles s" "\<not> overlay_hidden s3" "\<not> aria_hidden s3"
    using p2 by (simp_all add: s3_def)
  have p4: "pending s4 = pending s" "overlayRunId s4 = overlayRunId s + 1"
    "selectedFiles s4 = selectedFiles s" "\<not> overlay_hidden s4" "\<not> aria_hidden s4"
    using p3 by (simp_all add: s4_def initOverlayLottie_def)
  have p5: "pending s5 = pending s" "overlayRunId s5 = overlayRunId s + 1"
    "selectedFiles s5 = selectedFiles s" "\<not> overlay_hidden s5" "\<not> aria_hidden s5"
    using p4 by (simp_all add: s5_def)
  have sh: "showProcessingOverlay p v s = Inr (snd (runOverlaySequence p (default_1 v) s5))"
    using assms(1)
    by (simp add: showProcessingOverlay_def s5_def s4_def s3_def s2_def s1_def Let_def)
  have "showProcessingOverlay p v s =
           Inr (seq_iter \<lparr>f_runId = overlayRunId s + 2, f_useNodes = (c = LinesC),
                  f_gapMs = gapMs_of cnt, f_currentNode = None, f_rest = overlay_lines p\<rparr> t0)"
    unfolding sh using runOverlaySequence_unfold[OF assms(2), of "default_1 v" cnt s5] assms(3) p5(2)
    by (simp add: t0_def)
  moreover have "pending t0 = pending s" "overlayRunId t0 = overlayRunId s + 2"
    "c = LinesC \<longrightarrow> lines_kids t0 = []"
    "selectedFiles t0 = selectedFiles s" "\<not> overlay_hidden t0" "\<not> aria_hidden t0"
    using p5 by (simp_all add: t0_def)
  ultimately show ?thesis by blast
qed

subsection \<open>Typing the rest of a line\<close>

lemma reveals_append:
  "reveals p (es @ fs) s = reveals p es s @ reveals p fs (exec p es s)"
  by (induction es arbitrary: s) (simp_all add: Let_def)

lemma gap_frames_simps [simp]:
  "gap_frames (s\<lparr>pending := []\<rparr>) = []"
  "gap_frames (s\<lparr>pending := (w, GapWait fr) # ps\<rparr>) = fr # gap_frames (s\<lparr>pending := ps\<rparr>)"
  "gap_frames (s\<lparr>pending := (w, CharWait r el c cs k) # ps\<rparr>) = gap_frames (s\<lparr>pending := ps\<rparr>)"
  "gap_frames (s\<lparr>pending := (w, RafShow n) # ps\<rparr>) = gap_frames (s\<lparr>pending := ps\<rparr>)"
  "gap_frames (s\<lparr>pending := (w, FadeWait fr l) # ps\<rparr>) = gap_frames (s\<lparr>pending := ps\<rparr>)"
  "gap_frames (s\<lparr>pending := (w, SettleWait) # ps\<rparr>) = gap_frames (s\<lparr>pending := ps\<rparr>)"
  by (simp_all add: gap_frames_def)

lemma gap_frames_upd [simp]:
  "gap_frames (s\<lparr>next_id := a\<rparr>) = gap_frames s"
  "gap_frames (s\<lparr>heap := b\<rparr>) = gap_frames s"
  "gap_frames (s\<lparr>lines_kids := c\<rparr>) = gap_frames s"
  "gap_frames (s\<lparr>sub_kids := d\<rparr>) = gap_frames s"
  by (simp_all add: gap_frames_def)

lemma outside_lines_upd [simp]:
  "outside_lines (s\<lparr>next_id := a\<rparr>) = outside_lines s"
  "outside_lines (s\<lparr>heap := b\<rparr>) = outside_lines s"
  "outside_lines (s\<lparr>lines_kids := c\<rparr>) = outside_lines s"
  "outside_lines (s\<lparr>pending := d\<rparr>) = outside_lines s"
  "outside_lines (s\<lparr>sub_kids := e\<rparr>) = outside_lines s"
  by (simp_all add: outside_lines_def)

lemma type_rest2:
  assumes "pending s = [(w, CharWait r el c rest (SeqK fr))]"
    and "overlayRunId s = r"
    and "get_kids el s = map Txt typed @ [Caret c]"
  shows "exec p (replicate (Suc (length rest)) (Fire 0)) s =
           (set_kids el (map Txt (typed @ rest)) s)\<lparr>pending := [(Timeout (f_gapMs fr), GapWait fr)]\<rparr>
       \<and> reveals p (replicate (Suc (length rest)) (Fire 0)) s =
           [shown p ((set_kids el (map Txt (typed @ rest)) s)\<lparr>pending := [(Timeout (f_gapMs fr), GapWait fr)]\<rparr>)]"
  using assms
proof (induction rest arbitrary: s typed w)
  case Nil
  have f: "fire p 0 s = (set_kids el (map Txt typed) s)\<lparr>pending := [(Timeout (f_gapMs fr), GapWait fr)]\<rparr>"
    using Nil by (simp add: fire_single resume_def tw_loop_def resume_caller_def remove_child_def sleep_def)
  have gp: "reveal_done s (fire p 0 s)" unfolding f using Nil(1)
    by (simp add: reveal_done_def gap_frames_def)
  show ?case using gp f by (simp add: Let_def)
next
  case (Cons ch rest)
  let ?s1 = "(set_kids el (map Txt (typed @ [ch]) @ [Caret c]) s)\<lparr>pending := [(Timeout (Fin (char_delay ch)), CharWait r el c rest (SeqK fr))]\<rparr>"
  have f: "fire p 0 s = ?s1"
    using Cons(2-4)
    by (simp add: fire_single resume_def tw_loop_def remove_child_def append_text_def appendChild_def
        sleep_def Let_def)
  have np1: "\<not> reveal_done s ?s1" by (simp add: reveal_done_def gap_frames_def)
  have ih: "exec p (replicate (Suc (length rest)) (Fire 0)) ?s1 =
           (set_kids el (map Txt ((typed @ [ch]) @ rest)) ?s1)\<lparr>pending := [(Timeout (f_gapMs fr), GapWait fr)]\<rparr>
       \<and> reveals p (replicate (Suc (length rest)) (Fire 0)) ?s1 =
           [shown p ((set_kids el (map Txt ((typed @ [ch]) @ rest)) ?s1)\<lparr>pending := [(Timeout (f_gapMs fr), GapWait fr)]\<rparr>)]"
    by (rule Cons.IH) (use Cons(3) in simp_all)
  have e: "exec p (replicate (Suc (length (ch # rest))) (Fire 0)) s =
        exec p (replicate (Suc (length rest)) (Fire 0)) ?s1"
    using f by simp
  have l: "reveals p (replicate (Suc (length (ch # rest))) (Fire 0)) s =
        reveals p (replicate (Suc (length rest)) (Fire 0)) ?s1"
    using f np1 by (simp add: Let_def)
  show ?case unfolding e l using ih by simp
qed

lemma type_rest_exec:
  assumes "pending s = ps @ [(w, CharWait r el c rest k)]"
    and "overlayRunId s = r"
    and "get_kids el s = map Txt typed @ [Caret c]"
  shows "exec p (replicate (Suc (length rest)) (Fire (length ps))) s =
           (set_kids el (map Txt (typed @ rest)) s)\<lparr>pending := ps @ [parked k]\<rparr>"
  using assms
proof (induction rest arbitrary: s typed w)
  case Nil
  have f: "fire p (length ps) s = (set_kids el (map Txt typed) s)\<lparr>pending := ps @ [parked k]\<rparr>"
    using Nil by (simp add: fire_last resume_def tw_loop_def resume_caller_parked remove_child_def)
  show ?case using f by simp
next
  case (Cons ch rest)
  let ?s1 = "(set_kids el (map Txt (typed @ [ch]) @ [Caret c]) s)\<lparr>pending := ps @ [(Timeout (Fin (char_delay ch)), CharWait r el c rest k)]\<rparr>"
  have f: "fire p (length ps) s = ?s1"
    using Cons(2-4)
    by (simp add: fire_last resume_def tw_loop_def remove_child_def append_text_def appendChild_def
        sleep_def Let_def)
  have ih: "exec p (replicate (Suc (length rest)) (Fire (length ps))) ?s1 =
           (set_kids el (map Txt ((typed @ [ch]) @ rest)) ?s1)\<lparr>pending := ps @ [parked k]\<rparr>"
    by (rule Cons.IH) (use Cons(3) in simp_all)
  have e: "exec p (replicate (Suc (length (ch # rest))) (Fire (length ps))) s =
        exec p (replicate (Suc (length rest)) (Fire (length ps))) ?s1"
    using f by simp
  show ?case unfolding e using ih by simp
qed

subsection \<open>A whole run, timer by timer\<close>

lemma replicate_2_add:
  "replicate (2 + (a + b)) x = x # x # (replicate a x @ replicate b x)"
  by (simp add: replicate_add)

lemma replicate_1_add:
  "replicate (1 + (a + b)) x = x # (replicate a x @ replicate b x)"
  by (simp add: replicate_add)

lemma steps_after_nodes: "steps_after True (l # ls) = 2 + (Suc (length l) + steps_after True ls)"
  by simp

lemma steps_after_legacy: "steps_after False (l # ls) = 1 + (length l + steps_after False ls)"
  by simp

lemma body_nodes:
  fixes l :: jstring and fr :: frame and t0 :: state
  assumes pend: "pending t0 = []"
    and run: "overlayRunId t0 = f_runId fr"
    and un: "f_useNodes fr"
    and kids: "lines_kids t0 = []"
    and hl: "has_lines p"
    and pred: "gap_frames pred = []"
  defines "m \<equiv> next_id t0"
  defines "fr' \<equiv> fr\<lparr>f_currentNode := Some m\<rparr>"
  defines "t1 \<equiv> seq_body fr l t0"
  defines "tf \<equiv> t0\<lparr>next_id := Suc (Suc m),
      heap := (heap t0)(m := \<lparr>cls_show = True, cls_hide = False, kids = map Txt l\<rparr>),
      lines_kids := [m],
      pending := [(Timeout (f_gapMs fr), GapWait fr')]\<rparr>"
  shows "exec p (replicate (Suc (length l)) (Fire 0)) t1 = tf"
    and "(if reveal_done pred t1 then [shown p t1] else []) @
           reveals p (replicate (Suc (length l)) (Fire 0)) t1 = [[map Txt l]]"
proof -
  have sh: "shown p tf = [map Txt l]"
    using hl by (simp add: shown_def ensureLinesContainer_def tf_def)
  show "exec p (replicate (Suc (length l)) (Fire 0)) t1 = tf"
    and "(if reveal_done pred t1 then [shown p t1] else []) @
           reveals p (replicate (Suc (length l)) (Fire 0)) t1 = [[map Txt l]]"
  proof (atomize (full), cases l)
    case Nil
    let ?T1 = "t0\<lparr>next_id := Suc (Suc m),
      heap := (heap t0)(m := \<lparr>cls_show = False, cls_hide = False, kids = []\<rparr>),
      lines_kids := [m],
      pending := [(AnimationFrame, RafShow m), (Timeout (f_gapMs fr), GapWait fr')]\<rparr>"
    have t1: "t1 = ?T1"
      using un kids pend by (simp add: t1_def Nil seq_body_nodes_Nil m_def fr'_def)
    have f: "fire p 0 ?T1 = tf"
      by (simp add: fire_def resume_def tf_def Nil)
    have r0: "reveal_done pred ?T1" using pred by (simp add: reveal_done_def)
    have r1: "\<not> reveal_done ?T1 tf" by (simp add: reveal_done_def tf_def)
    have sh1: "shown p ?T1 = [[]]"
      using hl by (simp add: shown_def ensureLinesContainer_def)
    show "exec p (replicate (Suc (length l)) (Fire 0)) t1 = tf \<and>
      (if reveal_done pred t1 then [shown p t1] else []) @
           reveals p (replicate (Suc (length l)) (Fire 0)) t1 = [[map Txt l]]"
      unfolding t1 using f r0 r1 sh1 by (simp add: Nil Let_def)
  next
    case (Cons ch cs)
    let ?cw = "(Timeout (Fin (char_delay ch)), CharWait (f_runId fr) (NodeT m) (Suc m) cs (SeqK fr'))"
    let ?T1 = "t0\<lparr>next_id := Suc (Suc m),
      heap := (heap t0)(m := \<lparr>cls_show = False, cls_hide = False, kids = [Txt ch, Caret (Suc m)]\<rparr>),
      lines_kids := [m],
      pending := [(AnimationFrame, RafShow m), ?cw]\<rparr>"
    let ?T2 = "t0\<lparr>next_id := Suc (Suc m),
      heap := (heap t0)(m := \<lparr>cls_show = True, cls_hide = False, kids = [Txt ch, Caret (Suc m)]\<rparr>),
      lines_kids := [m],
      pending := [?cw]\<rparr>"
    have t1: "t1 = ?T1"
      using un kids pend run by (simp add: t1_def Cons seq_body_nodes_Cons m_def fr'_def)
    have f: "fire p 0 ?T1 = ?T2"
      by (simp add: fire_def resume_def)
    have r0: "\<not> reveal_done pred ?T1" by (simp add: reveal_done_def)
    have r1: "\<not> reveal_done ?T1 ?T2" by (simp add: reveal_done_def)
    have t: "exec p (replicate (Suc (length cs)) (Fire 0)) ?T2 =
           (set_kids (NodeT m) (map Txt ([ch] @ cs)) ?T2)\<lparr>pending := [(Timeout (f_gapMs fr'), GapWait fr')]\<rparr>
       \<and> reveals p (replicate (Suc (length cs)) (Fire 0)) ?T2 =
           [shown p ((set_kids (NodeT m) (map Txt ([ch] @ cs)) ?T2)\<lparr>pending := [(Timeout (f_gapMs fr'), GapWait fr')]\<rparr>)]"
      by (rule type_rest2) (use run in \<open>simp_all add: get_kids_def\<close>)
    have fin: "(set_kids (NodeT m) (map Txt ([ch] @ cs)) ?T2)\<lparr>pending := [(Timeout (f_gapMs fr'), GapWait fr')]\<rparr> = tf"
      by (simp add: set_kids_def tf_def fr'_def Cons)
    have e: "exec p (replicate (Suc (length l)) (Fire 0)) t1 =
        exec p (replicate (Suc (length cs)) (Fire 0)) ?T2"
      unfolding t1 by (simp add: Cons f)
    have r: "(if reveal_done pred t1 then [shown p t1] else []) @
           reveals p (replicate (Suc (length l)) (Fire 0)) t1 =
        reveals p (replicate (Suc (length cs)) (Fire 0)) ?T2"
      unfolding t1 by (simp add: Cons f r0 r1 Let_def)
    show "exec p (replicate (Suc (length l)) (Fire 0)) t1 = tf \<and>
      (if reveal_done pred t1 then [shown p t1] else []) @
           reveals p (replicate (Suc (length l)) (Fire 0)) t1 = [[map Txt l]]"
      unfolding e r using t fin sh by (simp add: Cons)
  qed
qed

lemma loop_nodes:
  assumes "pending s = [(w, GapWait fr)]"
    and "overlayRunId s = f_runId fr"
    and "f_useNodes fr"
    and "f_currentNode fr = Some n"
    and "lines_kids s = [n]"
    and "has_lines p"
    and "f_rest fr = ls"
  shows "reveals p (replicate (steps_after True ls) (Fire 0)) s = map (\<lambda>l. [map Txt l]) ls
       \<and> pending (exec p (replicate (steps_after True ls) (Fire 0)) s) = []
       \<and> outside_lines (exec p (replicate (steps_after True ls) (Fire 0)) s) = outside_lines s"
  using assms
proof (induction ls arbitrary: s fr n w)
  case Nil
  have f: "fire p 0 s = s\<lparr>pending := []\<rparr>"
    using Nil by (simp add: fire_single resume_def seq_iter_def)
  have r: "\<not> reveal_done s (s\<lparr>pending := []\<rparr>)" by (simp add: reveal_done_def)
  show ?case using f r by (simp add: Let_def)
next
  case (Cons l ls)
  let ?fr0 = "fr\<lparr>f_rest := ls, f_currentNode := None\<rparr>"
  let ?S1 = "s\<lparr>heap := (heap s)(n := (heap s n)\<lparr>cls_show := False, cls_hide := True\<rparr>),
      pending := [(Timeout (Fin LINE_FADE_MS), FadeWait (fr\<lparr>f_rest := ls\<rparr>) l)]\<rparr>"
  let ?t0 = "s\<lparr>heap := (heap s)(n := (heap s n)\<lparr>cls_show := False, cls_hide := True\<rparr>),
      lines_kids := [], pending := []\<rparr>"
  let ?t1 = "seq_body ?fr0 l ?t0"
  let ?m = "next_id s"
  let ?fr' = "?fr0\<lparr>f_currentNode := Some ?m\<rparr>"
  let ?tf = "?t0\<lparr>next_id := Suc (Suc ?m),
      heap := (heap ?t0)(?m := \<lparr>cls_show = True, cls_hide = False, kids = map Txt l\<rparr>),
      lines_kids := [?m],
      pending := [(Timeout (f_gapMs ?fr0), GapWait ?fr')]\<rparr>"
  have f1: "fire p 0 s = ?S1"
    using seq_iter_fade[OF Cons.prems(7), of "s\<lparr>pending := []\<rparr>" n] Cons.prems(2,3,4)
    by (simp add: fire_single[OF Cons.prems(1)] resume_def)
  have f2: "fire p 0 ?S1 = ?t1"
    using Cons.prems(4,5) by (simp add: fire_def resume_def after_fade_Some upd_order)
  have r1: "\<not> reveal_done s ?S1" by (simp add: reveal_done_def)
  have b: "exec p (replicate (Suc (length l)) (Fire 0)) ?t1 = ?tf"
      "(if reveal_done ?S1 ?t1 then [shown p ?t1] else []) @
           reveals p (replicate (Suc (length l)) (Fire 0)) ?t1 = [[map Txt l]]"
    using body_nodes[of ?t0 ?fr0 p ?S1 l] Cons.prems(2,3,6) by simp_all
  have ih: "reveals p (replicate (steps_after True ls) (Fire 0)) ?tf = map (\<lambda>l. [map Txt l]) ls
       \<and> pending (exec p (replicate (steps_after True ls) (Fire 0)) ?tf) = []
       \<and> outside_lines (exec p (replicate (steps_after True ls) (Fire 0)) ?tf) = outside_lines ?tf"
    by (rule Cons.IH[where s = ?tf and fr = ?fr' and n = ?m]) (use Cons.prems(2,3,6) in simp_all)
  have split: "replicate (steps_after True (l # ls)) (Fire 0) =
      Fire 0 # Fire 0 # (replicate (Suc (length l)) (Fire 0) @ replicate (steps_after True ls) (Fire 0))"
    by (simp only: steps_after_nodes replicate_2_add)
  have e: "exec p (replicate (steps_after True (l # ls)) (Fire 0)) s =
           exec p (replicate (steps_after True ls) (Fire 0)) ?tf"
    unfolding split by (simp add: f1 f2 b(1) del: replicate_Suc)
  have r: "reveals p (replicate (steps_after True (l # ls)) (Fire 0)) s =
           [[map Txt l]] @ reveals p (replicate (steps_after True ls) (Fire 0)) ?tf"
    unfolding split using b(2)
    by (cases "reveal_done ?S1 ?t1")
      (simp_all add: f1 f2 r1 b(1) reveals_append Let_def del: replicate_Suc)
  show ?case unfolding e r using ih by simp
qed

lemma body_legacy:
  fixes l :: jstring and fr :: frame and t0 :: state
  assumes pend: "pending t0 = []"
    and run: "overlayRunId t0 = f_runId fr"
    and un: "\<not> f_useNodes fr"
    and hl: "ensureLinesContainer p = Some SubC"
    and pred: "fr \<notin> set (gap_frames pred)"
  defines "m \<equiv> next_id t0"
  defines "t1 \<equiv> seq_body fr l t0"
  defines "tf \<equiv> t0\<lparr>next_id := Suc m, sub_kids := map Txt l,
      pending := [(Timeout (f_gapMs fr), GapWait fr)]\<rparr>"
  shows "exec p (replicate (length l) (Fire 0)) t1 = tf"
    and "(if reveal_done pred t1 then [shown p t1] else []) @
           reveals p (replicate (length l) (Fire 0)) t1 = [[map Txt l]]"
proof -
  have sh: "shown p tf = [map Txt l]"
    using hl by (simp add: shown_def tf_def)
  show "exec p (replicate (length l) (Fire 0)) t1 = tf"
    and "(if reveal_done pred t1 then [shown p t1] else []) @
           reveals p (replicate (length l) (Fire 0)) t1 = [[map Txt l]]"
  proof (atomize (full), cases l)
    case Nil
    have t1: "t1 = tf"
      using un pend by (simp add: t1_def tf_def Nil seq_body_legacy_Nil m_def)
    have r0: "reveal_done pred tf" using pred by (simp add: reveal_done_def tf_def)
    show "exec p (replicate (length l) (Fire 0)) t1 = tf \<and>
      (if reveal_done pred t1 then [shown p t1] else []) @
           reveals p (replicate (length l) (Fire 0)) t1 = [[map Txt l]]"
      unfolding t1 using r0 sh by (simp add: Nil)
  next
    case (Cons ch cs)
    let ?cw = "(Timeout (Fin (char_delay ch)), CharWait (f_runId fr) SubT m cs (SeqK fr))"
    let ?T1 = "t0\<lparr>next_id := Suc m, sub_kids := [Txt ch, Caret m], pending := [?cw]\<rparr>"
    have t1: "t1 = ?T1"
      using un pend run by (simp add: t1_def Cons seq_body_legacy_Cons m_def)
    have r0: "\<not> reveal_done pred ?T1" by (simp add: reveal_done_def)
    have t: "exec p (replicate (Suc (length cs)) (Fire 0)) ?T1 =
           (set_kids SubT (map Txt ([ch] @ cs)) ?T1)\<lparr>pending := [(Timeout (f_gapMs fr), GapWait fr)]\<rparr>
       \<and> reveals p (replicate (Suc (length cs)) (Fire 0)) ?T1 =
           [shown p ((set_kids SubT (map Txt ([ch] @ cs)) ?T1)\<lparr>pending := [(Timeout (f_gapMs fr), GapWait fr)]\<rparr>)]"
      by (rule type_rest2) (use run in \<open>simp_all add: get_kids_def\<close>)
    have fin: "(set_kids SubT (map Txt ([ch] @ cs)) ?T1)\<lparr>pending := [(Timeout (f_gapMs fr), GapWait fr)]\<rparr> = tf"
      by (simp add: set_kids_def tf_def Cons)
    have r: "(if reveal_done pred t1 then [shown p t1] else []) @
           reveals p (replicate (length l) (Fire 0)) t1 =
        reveals p (replicate (Suc (length cs)) (Fire 0)) ?T1"
      unfolding t1 using r0 by (simp add: Cons)
    show "exec p (replicate (length l) (Fire 0)) t1 = tf \<and>
      (if reveal_done pred t1 then [shown p t1] else []) @
           reveals p (replicate (length l) (Fire 0)) t1 = [[map Txt l]]"
      unfolding r unfolding t1 using t fin sh by (simp add: Cons)
  qed
qed

lemma loop_legacy:
  assumes "pending s = [(w, GapWait fr)]"
    and "overlayRunId s = f_runId fr"
    and "\<not> f_useNodes fr"
    and "ensureLinesContainer p = Some SubC"
    and "f_rest fr = ls"
  shows "reveals p (replicate (steps_after False ls) (Fire 0)) s = map (\<lambda>l. [map Txt l]) ls
       \<and> pending (exec p (replicate (steps_after False ls) (Fire 0)) s) = []
       \<and> outside_lines (exec p (replicate (steps_after False ls) (Fire 0)) s) = outside_lines s"
  using assms
proof (induction ls arbitrary: s fr w)
  case Nil
  have f: "fire p 0 s = s\<lparr>pending := []\<rparr>"
    using Nil by (simp add: fire_single resume_def seq_iter_def)
  have r: "\<not> reveal_done s (s\<lparr>pending := []\<rparr>)" by (simp add: reveal_done_def)
  show ?case using f r by (simp add: Let_def)
next
  case (Cons l ls)
  let ?fr0 = "fr\<lparr>f_rest := ls\<rparr>"
  let ?t0 = "s\<lparr>pending := []\<rparr>"
  let ?t1 = "seq_body ?fr0 l ?t0"
  let ?tf = "?t0\<lparr>next_id := Suc (next_id ?t0), sub_kids := map Txt l,
      pending := [(Timeout (f_gapMs ?fr0), GapWait ?fr0)]\<rparr>"
  have f1: "fire p 0 s = ?t1"
    using seq_iter_first[OF Cons.prems(5), of ?t0] Cons.prems(2,3)
    by (simp add: fire_single[OF Cons.prems(1)] resume_def)
  have ne: "?fr0 \<noteq> fr"
  proof
    assume "?fr0 = fr"
    then have "f_rest ?fr0 = f_rest fr" by simp
    then show False using Cons.prems(5) by simp
  qed
  have gf: "?fr0 \<notin> set (gap_frames s)"
    using ne Cons.prems(1) by (simp add: gap_frames_def)
  have b: "exec p (replicate (length l) (Fire 0)) ?t1 = ?tf"
      "(if reveal_done s ?t1 then [shown p ?t1] else []) @
           reveals p (replicate (length l) (Fire 0)) ?t1 = [[map Txt l]]"
    using body_legacy[of ?t0 ?fr0 p s l] Cons.prems(2,3,4) gf by simp_all
  have ih: "reveals p (replicate (steps_after False ls) (Fire 0)) ?tf = map (\<lambda>l. [map Txt l]) ls
       \<and> pending (exec p (replicate (steps_after False ls) (Fire 0)) ?tf) = []
       \<and> outside_lines (exec p (replicate (steps_after False ls) (Fire 0)) ?tf) = outside_lines ?tf"
    by (rule Cons.IH[where s = ?tf and fr = ?fr0]) (use Cons.prems(2,3,4) in simp_all)
  have split: "replicate (steps_after False (l # ls)) (Fire 0) =
      Fire 0 # (replicate (length l) (Fire 0) @ replicate (steps_after False ls) (Fire 0))"
    by (simp only: steps_after_legacy replicate_1_add)
  have e: "exec p (replicate (steps_after False (l # ls)) (Fire 0)) s =
           exec p (replicate (steps_after False ls) (Fire 0)) ?tf"
    unfolding split by (simp add: f1 b(1) del: replicate_Suc)
  have r: "reveals p (replicate (steps_after False (l # ls)) (Fire 0)) s =
           [[map Txt l]] @ reveals p (replicate (steps_after False ls) (Fire 0)) ?tf"
    unfolding split using b(2)
    by (cases "reveal_done s ?t1")
      (simp_all add: f1 b(1) reveals_append Let_def del: replicate_Suc)
  show ?case unfolding e r using ih by simp
qed

subsection \<open>The completion message\<close>

lemma success_msg_Cons: "success_msg = 68 # tl success_msg"
  by (simp add: success_msg_def js_str_def)

lemma length_success_msg: "length success_msg = Suc (length (tl success_msg))"
  by (subst success_msg_Cons) simp

lemma success_msg_split: "[68] @ tl success_msg = success_msg"
  using success_msg_Cons by simp

lemma success_nodes:
  fixes s :: state and p :: page
  assumes "has_lines p"
  defines "s1 \<equiv> cancelOverlaySequence p s"
  defines "m \<equiv> next_id s"
  shows "showProcessingSuccess p s =
     s1\<lparr>next_id := Suc (Suc m),
        heap := (heap s1)(m := \<lparr>cls_show = True, cls_hide = False, kids = [Txt 68, Caret (Suc m)]\<rparr>),
        lines_kids := [m],
        pending := pending s @ [(Timeout (Fin (char_delay 68)),
            CharWait (overlayRunId s + 1) (NodeT m) (Suc m) (tl success_msg) SuccK)]\<rparr>"
proof -
  have a: "next_id s1 = m" "lines_kids s1 = []" "overlayRunId s1 = overlayRunId s + 1"
    "pending s1 = pending s"
    using assms(1) by (simp_all add: s1_def m_def cancelOverlaySequence_def Let_def)
  have "showProcessingSuccess p s =
      typewriterLine (NodeT m) (68 # tl success_msg) (overlayRunId s + 1) SuccK
        (s1\<lparr>next_id := Suc m,
            heap := (heap s1)(m := \<lparr>cls_show = True, cls_hide = False, kids = []\<rparr>),
            lines_kids := [m]\<rparr>)"
    using assms(1) a success_msg_Cons
    by (simp add: showProcessingSuccess_def ensureLinesContainer_def Let_def s1_def[symmetric])
  then show ?thesis
    using a by (simp add: typewriterLine_valid_Cons set_kids_def upd_order)
qed

lemma success_legacy:
  fixes s :: state and p :: page
  assumes "\<not> has_lines p" and "has_sub p"
  defines "s1 \<equiv> cancelOverlaySequence p s"
  defines "m \<equiv> next_id s"
  shows "showProcessingSuccess p s =
     s1\<lparr>next_id := Suc m, sub_kids := [Txt 68, Caret m],
        pending := pending s @ [(Timeout (Fin (char_delay 68)),
            CharWait (overlayRunId s + 1) SubT m (tl success_msg) SuccK)]\<rparr>"
proof -
  have a: "next_id s1 = m" "overlayRunId s1 = overlayRunId s + 1" "pending s1 = pending s"
    using assms(1,2) by (simp_all add: s1_def m_def cancelOverlaySequence_def Let_def)
  have "showProcessingSuccess p s =
      typewriterLine SubT (68 # tl success_msg) (overlayRunId s + 1) SuccK s1"
    using assms(1,2) a success_msg_Cons
    by (simp add: showProcessingSuccess_def ensureLinesContainer_def Let_def s1_def[symmetric])
  then show ?thesis
    using a by (simp add: typewriterLine_valid_Cons set_kids_def upd_order)
qed

lemma after_settle_facts:
  "selectedFiles (after_settle p t) = []"
  "selectedTrainType (after_settle p t) = []"
  "has_overlay p \<longrightarrow> overlay_hidden (after_settle p t) \<and> aria_hidden (after_settle p t)"
  "has_lines p \<longrightarrow> lines_kids (after_settle p t) = []"
  "has_sub p \<longrightarrow> sub_kids (after_settle p t) = []"
  "pending (after_settle p t) = pending t"
  "overlayRunId (after_settle p t) = overlayRunId t + 1"
  by (simp_all add: after_settle_def resetTrainingType_def clearFilesAfterSuccess_def
      hideProcessingOverlay_def cancelOverlaySequence_def Let_def)

subsection \<open>Pacing\<close>

lemma count_of_int: "1 \<le> n \<Longrightarrow> count_of (JNum (Fin n)) = Inr (Fin n)"
  by (auto simp: num_defs)

lemma gapMs_of_int: "1 \<le> n \<Longrightarrow> gapMs_of (Fin n) = Fin (min 1200 (LINE_GAP_BASE_MS * n))"
proof -
  assume n: "1 \<le> n"
  have m: "js_mul (Fin LINE_GAP_BASE_MS) (Fin n) = round_double (of_int (210 * n))"
    by (simp add: LINE_GAP_BASE_MS_def)
  show ?thesis
  proof (cases "n \<le> 5")
    case True
    then have "\<bar>210 * n\<bar> \<le> 2 ^ 53" using n by simp
    then have "round_double (of_int (210 * n)) = Fin (210 * n)" by (rule round_double_exact)
    then show ?thesis using True n unfolding gapMs_of_def m
      by (auto simp: Math_min_def LINE_GAP_BASE_MS_def)
  next
    case False
    then have "(of_int 1200 :: rat) \<le> of_int (210 * n)" by (simp only: of_int_le_iff)
    then have "js_le (Fin 1200) (round_double (of_int (210 * n)))"
      by (intro round_double_ge) simp_all
    then show ?thesis using False unfolding gapMs_of_def m
      by (simp add: Math_min_def LINE_GAP_BASE_MS_def)
  qed
qed

lemma count_of_result:
  assumes "Number_of v = Inr n"
  shows "count_of v = Inr (if js_positive n then Math_max (Fin 1) n else Fin 1)"
  using assms by (cases n) (auto simp: count_of_def js_or_def Math_max_def)

lemma count_at_least_1:
  assumes "count_of v = Inr c"
  shows "c \<noteq> NaN \<and> js_le (Fin 1) c"
proof -
  obtain n where n: "Number_of v = Inr n" using assms
    by (cases "Number_of v") (simp_all add: count_of_def)
  have "c = Math_max (Fin 1) (js_or n (Fin 1))" using assms n by (simp add: count_of_def)
  then show ?thesis by (cases n) (auto simp: js_or_def Math_max_def)
qed

lemma gap_bounds:
  assumes "c \<noteq> NaN" and "js_le (Fin 1) c"
  shows "js_le (Fin LINE_GAP_BASE_MS) (gapMs_of c) \<and> js_le (gapMs_of c) (Fin 1200)"
proof (cases c)
  case (Fin n)
  then have "1 \<le> n" using assms by simp
  then show ?thesis unfolding Fin gapMs_of_int[OF \<open>1 \<le> n\<close>] by (simp add: LINE_GAP_BASE_MS_def)
next
  case (Frac q)
  then have q: "1 \<le> q" using assms by simp
  define g where "g = round_double (of_int 210 * q)"
  have "(of_int 210 :: rat) \<le> of_int 210 * q" using q by simp
  then have lo: "js_le (Fin 210) g" unfolding g_def by (intro round_double_ge) simp_all
  have nn: "g \<noteq> NaN" by (simp add: g_def)
  have eq: "gapMs_of c = (if js_le (Fin 1200) g then Fin 1200 else g)"
    using nn by (simp add: Frac gapMs_of_def Math_min_def LINE_GAP_BASE_MS_def g_def)
  show ?thesis
  proof (cases "js_le (Fin 1200) g")
    case True
    then show ?thesis by (simp add: eq LINE_GAP_BASE_MS_def)
  next
    case False
    then have "js_le g (Fin 1200)" using nn by (intro js_le_total) simp_all
    then show ?thesis using False lo by (simp add: eq LINE_GAP_BASE_MS_def)
  qed
next
  case PosInf
  then show ?thesis by (simp add: gapMs_of_def Math_min_def LINE_GAP_BASE_MS_def)
qed (use assms in simp_all)

lemma char_delay_eq:
  "char_delay ch = LINE_TYPE_SPEED_MS +
     (if spec_sentence_ending ch \<or> ch = of_char CHR '','' then 3 * LINE_TYPE_SPEED_MS else 0)"
  by (simp add: spec_sentence_ending_def char_delay_def extra_of_def)

lemma hide_twice:
  "hideProcessingOverlay p (hideProcessingOverlay p s) =
     (hideProcessingOverlay p s)\<lparr>overlayRunId := overlayRunId s + 2\<rparr>"
  by (simp add: hideProcessingOverlay_def cancelOverlaySequence_def Let_def)

subsection \<open>Stale continuations of sequence runs\<close>

lemma texts_append [simp]: "texts (xs @ ys) = texts xs @ texts ys"
  by (induction xs rule: texts.induct) simp_all

lemma texts_map_Txt [simp]: "texts (map Txt xs) = xs"
  by (induction xs) simp_all

lemma texts_removeAll_caret [simp]: "texts (removeAll (Caret c) xs) = texts xs"
  by (induction xs rule: texts.induct) auto

lemma old_CharWait:
  assumes "r < overlayRunId t"
  shows "resume p (CharWait r el c rest (SeqK fr)) t =
     (if rest = [] then remove_child el (Caret c) t else t)
       \<lparr>pending := pending t @ [(Timeout (f_gapMs fr), GapWait fr)]\<rparr>"
  using assms
  by (cases rest; cases el)
    (simp_all add: resume_def tw_loop_def resume_caller_def sleep_def remove_child_def set_kids_def
      get_kids_def)

lemma old_GapWait:
  assumes "f_runId fr < overlayRunId t"
  shows "resume p (GapWait fr) t = t"
  using assms by (simp add: resume_def seq_iter_def split: list.splits)

lemma seq_body_nodes_old:
  assumes "f_useNodes fr" and "f_runId fr < overlayRunId s"
  shows "seq_body fr l s =
    s\<lparr>next_id := Suc (Suc (next_id s)),
      heap := (heap s)(next_id s := \<lparr>cls_show = False, cls_hide = False,
                 kids = (if l = [] then [] else [Caret (Suc (next_id s))])\<rparr>),
      lines_kids := removeAll (next_id s) (lines_kids s) @ [next_id s],
      pending := pending s @ [(AnimationFrame, RafShow (next_id s)),
         (Timeout (f_gapMs fr), GapWait (fr\<lparr>f_currentNode := Some (next_id s)\<rparr>))]\<rparr>"
  using assms
  by (cases l)
    (simp_all add: seq_body_def typewriterLine_def tw_loop_def resume_caller_def dom_defs Let_def)

lemma old_FadeWait:
  assumes "f_useNodes fr" and "f_runId fr < overlayRunId t"
  shows "resume p (FadeWait fr l) t =
    t\<lparr>next_id := Suc (Suc (next_id t)),
      heap := (heap t)(next_id t := \<lparr>cls_show = False, cls_hide = False,
                 kids = (if l = [] then [] else [Caret (Suc (next_id t))])\<rparr>),
      lines_kids := removeAll (next_id t)
          (case f_currentNode fr of Some n \<Rightarrow> removeAll n (lines_kids t) | None \<Rightarrow> lines_kids t)
          @ [next_id t],
      pending := pending t @ [(AnimationFrame, RafShow (next_id t)),
         (Timeout (f_gapMs fr), GapWait (fr\<lparr>f_currentNode := Some (next_id t)\<rparr>))]\<rparr>"
  using assms
  by (cases "f_currentNode fr")
    (simp_all add: resume_def after_fade_def seq_body_nodes_old upd_order)

lemma old_RafShow:
  "resume p (RafShow n) t = t\<lparr>heap := (heap t)(n := (heap t n)\<lparr>cls_show := True\<rparr>)\<rparr>"
  by (simp add: resume_def)

lemma fire_unfold:
  "i < length (pending t) \<Longrightarrow>
   fire p i t = resume p (snd (pending t ! i))
                  (t\<lparr>pending := take i (pending t) @ drop (Suc i) (pending t)\<rparr>)"
  by (simp add: fire_def)

lemma filter_drop_nth:
  assumes "i < length xs" and "\<not> P (xs ! i)"
  shows "filter P (take i xs @ drop (Suc i) xs) = filter P xs"
proof -
  have "xs = take i xs @ xs ! i # drop (Suc i) xs" using assms(1) by (rule id_take_nth_drop)
  then have "filter P xs = filter P (take i xs @ xs ! i # drop (Suc i) xs)" by simp
  then show ?thesis using assms(2) by simp
qed

lemma filter_drop_nth_single:
  assumes "i < length xs" and "P (xs ! i)" and "filter P xs = [y]"
  shows "filter P (take i xs @ drop (Suc i) xs) = [] \<and> xs ! i = y"
proof -
  have "xs = take i xs @ xs ! i # drop (Suc i) xs" using assms(1) by (rule id_take_nth_drop)
  then have "filter P xs = filter P (take i xs) @ xs ! i # filter P (drop (Suc i) xs)"
    using assms(2) by (metis filter.simps(2) filter_append)
  with assms(3) show ?thesis by (auto simp: append_eq_Cons_conv)
qed

lemma map_snd_drop_nth:
  "map snd (take i xs @ drop (Suc i) xs) = take i (map snd xs) @ drop (Suc i) (map snd xs)"
  by (simp add: take_map drop_map)

lemma old_resume_frame:
  assumes old: "old_cont R b k" and st: "R < overlayRunId t" and cb: "b < next_id t"
  shows "outside_lines (resume p k t) = outside_lines t \<and>
    next_id t \<le> next_id (resume p k t) \<and>
    (\<forall>n. b \<le> n \<and> n < next_id t \<longrightarrow> kids (heap (resume p k t) n) = kids (heap t n)) \<and>
    (lines_ok b t \<longrightarrow> lines_ok b (resume p k t)) \<and>
    ((\<forall>c'<b. Caret c' \<notin> set (sub_kids t)) \<longrightarrow> sub_kids (resume p k t) = sub_kids t) \<and>
    (\<exists>new. pending (resume p k t) = pending t @ new \<and> (\<forall>x\<in>set new. old_cont R b (snd x)))"
proof (cases k)
  case (CharWait r el c rest kk)
  then obtain fr where kk: "kk = SeqK fr" and r: "r \<le> R" and c: "c < b"
    and el: "target_below b el" and fr: "f_runId fr \<le> R"
    using old by (auto simp: old_cont_def split: kont.splits)
  have eq: "resume p k t = (if rest = [] then remove_child el (Caret c) t else t)
       \<lparr>pending := pending t @ [(Timeout (f_gapMs fr), GapWait fr)]\<rparr>"
    unfolding CharWait kk by (rule old_CharWait) (use r st in simp)
  have g: "old_cont R b (GapWait fr)" using fr by (simp add: old_cont_def)
  show ?thesis
  proof (cases "rest = []")
    case False
    then show ?thesis using eq g by (simp add: outside_lines_def lines_ok_def)
  next
    case True
    show ?thesis
    proof (cases el)
      case (NodeT n)
      then have nb: "n < b" using el by simp
      have eq': "resume p k t = t\<lparr>heap := (heap t)(n := (heap t n)\<lparr>kids := removeAll (Caret c) (kids (heap t n))\<rparr>),
          pending := pending t @ [(Timeout (f_gapMs fr), GapWait fr)]\<rparr>"
        using eq True NodeT by (simp add: remove_child_def set_kids_def get_kids_def)
      have lo: "lines_ok b t \<longrightarrow> lines_ok b (resume p k t)"
        unfolding eq' lines_ok_def using nb by fastforce
      show ?thesis using lo g nb unfolding eq' by (simp add: outside_lines_def)
    next
      case SubT
      have eq': "resume p k t = t\<lparr>sub_kids := removeAll (Caret c) (sub_kids t),
          pending := pending t @ [(Timeout (f_gapMs fr), GapWait fr)]\<rparr>"
        using eq True SubT by (simp add: remove_child_def set_kids_def get_kids_def)
      have lo: "lines_ok b t \<longrightarrow> lines_ok b (resume p k t)"
        unfolding eq' lines_ok_def by auto
      show ?thesis using lo g c unfolding eq' by (simp add: outside_lines_def)
    qed
  qed
next
  case (FadeWait fr l)
  then have fr: "f_runId fr \<le> R" and un: "f_useNodes fr"
    and cn: "case f_currentNode fr of Some n \<Rightarrow> n < b | None \<Rightarrow> True"
    using old by (auto simp: old_cont_def)
  let ?m = "next_id t"
  let ?lk = "(case f_currentNode fr of Some n \<Rightarrow> removeAll n (lines_kids t) | None \<Rightarrow> lines_kids t)"
  have eq: "resume p k t =
    t\<lparr>next_id := Suc (Suc ?m),
      heap := (heap t)(?m := \<lparr>cls_show = False, cls_hide = False,
                 kids = (if l = [] then [] else [Caret (Suc ?m)])\<rparr>),
      lines_kids := removeAll ?m ?lk @ [?m],
      pending := pending t @ [(AnimationFrame, RafShow ?m),
         (Timeout (f_gapMs fr), GapWait (fr\<lparr>f_currentNode := Some ?m\<rparr>))]\<rparr>"
    unfolding FadeWait by (rule old_FadeWait[OF un]) (use fr st in simp)
  have g: "old_cont R b (GapWait (fr\<lparr>f_currentNode := Some ?m\<rparr>))" "old_cont R b (RafShow ?m)"
    using fr by (simp_all add: old_cont_def)
  have lo: "lines_ok b t \<longrightarrow> lines_ok b (resume p k t)"
  proof
    assume "lines_ok b t"
    then obtain stale where s: "lines_kids t = b # stale"
      and a: "\<forall>n\<in>set stale. b < n \<and> n < ?m \<and> texts (kids (heap t n)) = []"
      by (auto simp: lines_ok_def)
    have 1: "?lk = b # stale"
    proof (cases "f_currentNode fr")
      case None
      then show ?thesis using s by simp
    next
      case (Some n')
      then have "n' < b" using cn by simp
      then have "n' \<notin> set (b # stale)" using a by auto
      then have "removeAll n' (b # stale) = b # stale" by (rule removeAll_id)
      then show ?thesis using Some s by simp
    qed
    have "?m \<notin> set (b # stale)" using a cb by auto
    then have 2: "removeAll ?m ?lk = b # stale"
      unfolding 1 by (rule removeAll_id)
    show "lines_ok b (resume p k t)"
      unfolding eq lines_ok_def using 2 a cb by (auto intro!: exI[of _ "stale @ [?m]"])
  qed
  show ?thesis
    using lo g unfolding eq by (simp add: outside_lines_def)
next
  case (GapWait fr)
  then have "f_runId fr < overlayRunId t" using old st by (simp add: old_cont_def)
  then have "resume p k t = t" unfolding GapWait by (rule old_GapWait)
  then show ?thesis
    by simp
next
  case SettleWait
  then show ?thesis
    using old by (simp add: old_cont_def)
next
  case (RafShow n)
  have eq: "resume p k t = t\<lparr>heap := (heap t)(n := (heap t n)\<lparr>cls_show := True\<rparr>)\<rparr>"
    unfolding RafShow by (rule old_RafShow)
  have lo: "lines_ok b t \<longrightarrow> lines_ok b (resume p k t)"
    unfolding eq lines_ok_def by auto
  show ?thesis
    using lo unfolding eq by (simp add: outside_lines_def)
qed

subsection \<open>The completion run under any order of timers\<close>

lemma b_le_caret: "b \<le> msg_caret b c" by (simp add: msg_caret_def)

lemma not_old_pending_upd:
  "not_old R b (t\<lparr>pending := ps\<rparr>) = filter (\<lambda>k. \<not> old_cont R b k) (map snd ps)"
  by (simp add: not_old_def)

lemma not_old_drop_old:
  assumes "i < length (pending t)" and "old_cont R b (snd (pending t ! i))"
  shows "not_old R b (t\<lparr>pending := take i (pending t) @ drop (Suc i) (pending t)\<rparr>) = not_old R b t"
proof -
  have "filter (\<lambda>k. \<not> old_cont R b k)
          (take i (map snd (pending t)) @ drop (Suc i) (map snd (pending t))) =
        filter (\<lambda>k. \<not> old_cont R b k) (map snd (pending t))"
    by (rule filter_drop_nth) (use assms in simp_all)
  then show ?thesis by (simp add: not_old_def take_map drop_map)
qed

lemma not_old_drop_new:
  assumes "i < length (pending t)" and "\<not> old_cont R b (snd (pending t ! i))"
    and "not_old R b t = [y]"
  shows "not_old R b (t\<lparr>pending := take i (pending t) @ drop (Suc i) (pending t)\<rparr>) = []"
    and "snd (pending t ! i) = y"
proof -
  have "filter (\<lambda>k. \<not> old_cont R b k)
          (take i (map snd (pending t)) @ drop (Suc i) (map snd (pending t))) = []
        \<and> map snd (pending t) ! i = y"
    by (rule filter_drop_nth_single) (use assms in \<open>simp_all add: not_old_def\<close>)
  then show "not_old R b (t\<lparr>pending := take i (pending t) @ drop (Suc i) (pending t)\<rparr>) = []"
    and "snd (pending t ! i) = y"
    using assms(1) by (simp_all add: not_old_def take_map drop_map)
qed

lemma not_old_Nil_all_old:
  assumes "not_old R b t = []" and "i < length (pending t)"
  shows "old_cont R b (snd (pending t ! i))"
proof (rule ccontr)
  assume "\<not> old_cont R b (snd (pending t ! i))"
  moreover have "snd (pending t ! i) \<in> set (map snd (pending t))" using assms(2) by simp
  ultimately have "snd (pending t ! i) \<in> set (not_old R b t)" by (simp add: not_old_def)
  with assms(1) show False by simp
qed

lemma not_old_append_old:
  assumes "pending t' = pending t @ new" and "\<forall>x\<in>set new. old_cont R b (snd x)"
  shows "not_old R b t' = not_old R b t"
  using assms by (simp add: not_old_def)

lemma old_fire:
  assumes i: "i < length (pending t)" and old: "old_cont R b (snd (pending t ! i))"
    and st: "R < overlayRunId t" and cb: "b < next_id t"
  shows "outside_lines (fire p i t) = outside_lines t \<and>
    next_id t \<le> next_id (fire p i t) \<and>
    (\<forall>n. b \<le> n \<and> n < next_id t \<longrightarrow> kids (heap (fire p i t) n) = kids (heap t n)) \<and>
    (lines_ok b t \<longrightarrow> lines_ok b (fire p i t)) \<and>
    ((\<forall>c'<b. Caret c' \<notin> set (sub_kids t)) \<longrightarrow> sub_kids (fire p i t) = sub_kids t) \<and>
    not_old R b (fire p i t) = not_old R b t"
proof -
  let ?t0 = "t\<lparr>pending := take i (pending t) @ drop (Suc i) (pending t)\<rparr>"
  let ?k = "snd (pending t ! i)"
  have f: "fire p i t = resume p ?k ?t0" using i by (rule fire_unfold)
  have fr: "outside_lines (resume p ?k ?t0) = outside_lines ?t0 \<and>
    next_id ?t0 \<le> next_id (resume p ?k ?t0) \<and>
    (\<forall>n. b \<le> n \<and> n < next_id ?t0 \<longrightarrow> kids (heap (resume p ?k ?t0) n) = kids (heap ?t0 n)) \<and>
    (lines_ok b ?t0 \<longrightarrow> lines_ok b (resume p ?k ?t0)) \<and>
    ((\<forall>c'<b. Caret c' \<notin> set (sub_kids ?t0)) \<longrightarrow> sub_kids (resume p ?k ?t0) = sub_kids ?t0) \<and>
    (\<exists>new. pending (resume p ?k ?t0) = pending ?t0 @ new \<and> (\<forall>x\<in>set new. old_cont R b (snd x)))"
    by (rule old_resume_frame[OF old]) (use st cb in simp_all)
  then obtain new where new: "pending (resume p ?k ?t0) = pending ?t0 @ new"
    "\<forall>x\<in>set new. old_cont R b (snd x)" by blast
  have no: "not_old R b (resume p ?k ?t0) = not_old R b t"
    using not_old_append_old[OF new] not_old_drop_old[OF i old] by simp
  have lo: "lines_ok b ?t0 = lines_ok b t" by (simp add: lines_ok_def)
  show ?thesis unfolding f using fr no lo by simp
qed

lemma get_kids_set_other [simp]: "sub_kids (set_kids (NodeT n) ks t) = sub_kids t"
  by (simp add: set_kids_def)

lemma lines_ok_set_kids_msg:
  "lines_ok b (set_kids (NodeT b) ks t) = lines_ok b t"
  by (auto simp: lines_ok_def set_kids_def)

lemma lines_ok_pending [simp]: "lines_ok b (t\<lparr>pending := ps\<rparr>) = lines_ok b t"
  by (simp add: lines_ok_def)

lemma outside_lines_set_kids [simp]: "outside_lines (set_kids el ks t) = outside_lines t"
  by (cases el) (simp_all add: set_kids_def)

lemma next_id_set_kids [simp]: "next_id (set_kids el ks t) = next_id t"
  by (cases el) (simp_all add: set_kids_def)

lemma overlayRunId_outside: "outside_lines t = outside_lines t' \<Longrightarrow> overlayRunId t = overlayRunId t'"
  by (simp add: outside_lines_def)

lemma tw_loop_Nil:
  "tw_loop r el c [] k s =
     (set_kids el (removeAll (Caret c) (get_kids el s)) s)\<lparr>pending := pending s @ [parked k]\<rparr>"
  by (simp add: tw_loop_def remove_child_def resume_caller_parked)

lemma tw_loop_valid_Cons:
  assumes "overlayRunId s = r" and "get_kids el s = map Txt typed @ [Caret c]"
  shows "tw_loop r el c (ch # rest) k s =
     (set_kids el (map Txt (typed @ [ch]) @ [Caret c]) s)
       \<lparr>pending := pending s @ [(Timeout (Fin (char_delay ch)), CharWait r el c rest k)]\<rparr>"
  using assms
  by (simp add: tw_loop_def remove_child_def append_text_def appendChild_def sleep_def Let_def)

lemma lines_ok_msg_el:
  "c = LinesC \<longrightarrow> lines_ok b t \<Longrightarrow> c = LinesC \<longrightarrow> lines_ok b (set_kids (msg_el b c) ks t)"
  by (simp add: msg_el_def lines_ok_set_kids_msg)

lemma old_keeps_msg:
  assumes i: "i < length (pending t)" and old: "old_cont R b (snd (pending t ! i))"
    and run: "overlayRunId t = Suc R" and cm: "msg_caret b c < next_id t"
    and gk: "get_kids (msg_el b c) t = map Txt xs @ ys" "\<forall>c'<b. Caret c' \<notin> set ys"
  shows "get_kids (msg_el b c) (fire p i t) = get_kids (msg_el b c) t"
proof -
  have cb: "b < next_id t" using cm b_le_caret[of b c] by simp
  have f: "outside_lines (fire p i t) = outside_lines t \<and>
    next_id t \<le> next_id (fire p i t) \<and>
    (\<forall>n. b \<le> n \<and> n < next_id t \<longrightarrow> kids (heap (fire p i t) n) = kids (heap t n)) \<and>
    (lines_ok b t \<longrightarrow> lines_ok b (fire p i t)) \<and>
    ((\<forall>c'<b. Caret c' \<notin> set (sub_kids t)) \<longrightarrow> sub_kids (fire p i t) = sub_kids t) \<and>
    not_old R b (fire p i t) = not_old R b t"
    by (rule old_fire[OF i old _ cb]) (use run in simp)
  show ?thesis
  proof (cases c)
    case LinesC
    then show ?thesis using f cb by (simp add: msg_el_def get_kids_def)
  next
    case SubC
    then have "sub_kids t = map Txt xs @ ys" using gk(1) by (simp add: msg_el_def get_kids_def)
    then have "\<forall>c'<b. Caret c' \<notin> set (sub_kids t)" using gk(2) by auto
    then show ?thesis using f SubC by (simp add: msg_el_def get_kids_def)
  qed
qed

lemma succ_step:
  assumes inv: "succ_inv p R b c out t"
  shows "succ_inv p R b c out (fire p i t)"
proof (cases "i < length (pending t)")
  case False
  then show ?thesis using inv by (simp add: fire_def)
next
  case i: True
  let ?t0 = "t\<lparr>pending := take i (pending t) @ drop (Suc i) (pending t)\<rparr>"
  let ?k = "snd (pending t ! i)"
  have f: "fire p i t = resume p ?k ?t0" using i by (rule fire_unfold)
  consider j where "succ_typing R b c out j t" | "succ_settling R b c out t" | "succ_done p R b t"
    using inv by (auto simp: succ_inv_def)
  then show ?thesis
  proof cases
    case 1
    then have out: "outside_lines t = out" and run: "overlayRunId t = Suc R"
      and j: "j \<le> length success_msg"
      and gk: "get_kids (msg_el b c) t = map Txt (take j success_msg) @ [Caret (msg_caret b c)]"
      and no: "not_old R b t = [CharWait (Suc R) (msg_el b c) (msg_caret b c) (drop j success_msg) SuccK]"
      and cm: "msg_caret b c < next_id t" and lo: "c = LinesC \<longrightarrow> lines_ok b t"
      by (simp_all add: succ_typing_def)
    have cb: "b < next_id t" using cm b_le_caret[of b c] by simp
    show ?thesis
    proof (cases "old_cont R b ?k")
      case True
      have fr: "outside_lines (fire p i t) = outside_lines t \<and>
        next_id t \<le> next_id (fire p i t) \<and>
        (\<forall>n. b \<le> n \<and> n < next_id t \<longrightarrow> kids (heap (fire p i t) n) = kids (heap t n)) \<and>
        (lines_ok b t \<longrightarrow> lines_ok b (fire p i t)) \<and>
        ((\<forall>c'<b. Caret c' \<notin> set (sub_kids t)) \<longrightarrow> sub_kids (fire p i t) = sub_kids t) \<and>
        not_old R b (fire p i t) = not_old R b t"
        by (rule old_fire[OF i True _ cb]) (use run in simp)
      have km: "get_kids (msg_el b c) (fire p i t) = get_kids (msg_el b c) t"
        by (rule old_keeps_msg[OF i True run cm gk]) (use b_le_caret[of b c] in auto)
      have "succ_typing R b c out j (fire p i t)"
        unfolding succ_typing_def using fr km out run j gk no cm lo
          overlayRunId_outside[of "fire p i t" t]
        by auto
      then show ?thesis by (auto simp: succ_inv_def)
    next
      case False
      have k: "?k = CharWait (Suc R) (msg_el b c) (msg_caret b c) (drop j success_msg) SuccK"
        and n0: "not_old R b ?t0 = []"
        using not_old_drop_new[OF i False no] by simp_all
      show ?thesis
      proof (cases "drop j success_msg")
        case Nil
        then have jj: "take j success_msg = success_msg" using j by simp
        have r: "fire p i t = (set_kids (msg_el b c) (map Txt success_msg) ?t0)
            \<lparr>pending := pending ?t0 @ [parked SuccK]\<rparr>"
          unfolding f k Nil using gk jj by (simp add: resume_def tw_loop_Nil)
        have "not_old R b (fire p i t) = [SettleWait]"
          unfolding r using n0 by (simp add: not_old_def parked_def old_cont_def)
        then have "succ_settling R b c out (fire p i t)"
          unfolding succ_settling_def using out run cm lines_ok_msg_el[OF lo] unfolding r
          by simp
        then show ?thesis by (auto simp: succ_inv_def)
      next
        case (Cons ch rest)
        have jl: "j < length success_msg" using Cons j by (cases "j = length success_msg") auto
        have tk: "take (Suc j) success_msg = take j success_msg @ [ch]"
          using Cons jl by (metis take_Suc_conv_app_nth nth_via_drop)
        have dr: "drop (Suc j) success_msg = rest"
          using Cons by (metis drop_Suc tl_drop list.sel(3))
        have r: "fire p i t = (set_kids (msg_el b c) (map Txt (take j success_msg @ [ch]) @ [Caret (msg_caret b c)]) ?t0)
            \<lparr>pending := pending ?t0 @ [(Timeout (Fin (char_delay ch)),
                 CharWait (Suc R) (msg_el b c) (msg_caret b c) rest SuccK)]\<rparr>"
          unfolding f k Cons using gk run
          by (simp add: resume_def tw_loop_valid_Cons[where typed = "take j success_msg"])
        have "not_old R b (fire p i t) = [CharWait (Suc R) (msg_el b c) (msg_caret b c) rest SuccK]"
          unfolding r using n0 by (simp add: not_old_def old_cont_def)
        then have "succ_typing R b c out (Suc j) (fire p i t)"
          unfolding succ_typing_def tk dr using out run cm jl lines_ok_msg_el[OF lo] unfolding r
          by simp
        then show ?thesis by (auto simp: succ_inv_def)
      qed
    qed
  next
    case 2
    then have out: "outside_lines t = out" and run: "overlayRunId t = Suc R"
      and gk: "get_kids (msg_el b c) t = map Txt success_msg"
      and no: "not_old R b t = [SettleWait]"
      and cm: "msg_caret b c < next_id t" and lo: "c = LinesC \<longrightarrow> lines_ok b t"
      by (simp_all add: succ_settling_def)
    have cb: "b < next_id t" using cm b_le_caret[of b c] by simp
    show ?thesis
    proof (cases "old_cont R b ?k")
      case True
      have fr: "outside_lines (fire p i t) = outside_lines t \<and>
        next_id t \<le> next_id (fire p i t) \<and>
        (\<forall>n. b \<le> n \<and> n < next_id t \<longrightarrow> kids (heap (fire p i t) n) = kids (heap t n)) \<and>
        (lines_ok b t \<longrightarrow> lines_ok b (fire p i t)) \<and>
        ((\<forall>c'<b. Caret c' \<notin> set (sub_kids t)) \<longrightarrow> sub_kids (fire p i t) = sub_kids t) \<and>
        not_old R b (fire p i t) = not_old R b t"
        by (rule old_fire[OF i True _ cb]) (use run in simp)
      have km: "get_kids (msg_el b c) (fire p i t) = get_kids (msg_el b c) t"
        by (rule old_keeps_msg[OF i True run cm, where xs = success_msg and ys = "[]"])
          (use gk in auto)
      have "succ_settling R b c out (fire p i t)"
        unfolding succ_settling_def using fr km out run gk no cm lo
          overlayRunId_outside[of "fire p i t" t]
        by auto
      then show ?thesis by (auto simp: succ_inv_def)
    next
      case False
      have k: "?k = SettleWait" and n0: "not_old R b ?t0 = []"
        using not_old_drop_new[OF i False no] by simp_all
      have r: "fire p i t = after_settle p ?t0" unfolding f k by (simp add: resume_def)
      have "not_old R b (after_settle p ?t0) = []"
        using n0 after_settle_facts(6)[of p ?t0] by (simp add: not_old_def)
      moreover have "next_id (after_settle p ?t0) = next_id t"
        by (simp add: after_settle_def resetTrainingType_def clearFilesAfterSuccess_def
            hideProcessingOverlay_def cancelOverlaySequence_def Let_def)
      ultimately have "succ_done p R b (fire p i t)"
        unfolding r succ_done_def using after_settle_facts[of p ?t0] run cb by simp
      then show ?thesis by (auto simp: succ_inv_def)
    qed
  next
    case 3
    then have run: "overlayRunId t = Suc (Suc R)" and sf: "selectedFiles t = []"
      "selectedTrainType t = []" "has_overlay p \<longrightarrow> overlay_hidden t \<and> aria_hidden t"
      and no: "not_old R b t = []" and cb: "b < next_id t"
      by (simp_all add: succ_done_def)
    have old: "old_cont R b ?k" using not_old_Nil_all_old[OF no i] .
    have fr: "outside_lines (fire p i t) = outside_lines t \<and>
        next_id t \<le> next_id (fire p i t) \<and>
        (\<forall>n. b \<le> n \<and> n < next_id t \<longrightarrow> kids (heap (fire p i t) n) = kids (heap t n)) \<and>
        (lines_ok b t \<longrightarrow> lines_ok b (fire p i t)) \<and>
        ((\<forall>c'<b. Caret c' \<notin> set (sub_kids t)) \<longrightarrow> sub_kids (fire p i t) = sub_kids t) \<and>
        not_old R b (fire p i t) = not_old R b t"
      by (rule old_fire[OF i old _ cb]) (use run in simp)
    then have "outside_lines (fire p i t) = outside_lines t" by simp
    then have "succ_done p R b (fire p i t)"
      unfolding succ_done_def using fr run sf no cb by (simp add: outside_lines_def)
    then show ?thesis by (auto simp: succ_inv_def)
  qed
qed

lemma take_1_success_msg: "take (Suc 0) success_msg = [68]"
  by (subst success_msg_Cons) simp

lemma drop_1_success_msg: "drop (Suc 0) success_msg = tl success_msg"
  by (simp add: drop_Suc)

lemma succ_init:
  assumes cont: "ensureLinesContainer p = Some c" and osr: "only_sequence_runs s"
  shows "succ_typing (overlayRunId s) (next_id s) c (outside_lines (showProcessingSuccess p s)) 1
           (showProcessingSuccess p s)"
proof -
  let ?R = "overlayRunId s" and ?b = "next_id s"
  let ?c0 = "cancelOverlaySequence p s"
  have allold: "filter (\<lambda>k. \<not> old_cont ?R ?b k) (map snd (pending s)) = []"
    using osr by (auto simp: only_sequence_runs_def list_all_iff filter_empty_conv)
  show ?thesis
  proof (cases c)
    case LinesC
    have hl: "has_lines p" using cont LinesC by (auto simp: ensureLinesContainer_def split: if_splits)
    have s1: "showProcessingSuccess p s = ?c0\<lparr>next_id := Suc (Suc ?b),
        heap := (heap ?c0)(?b := \<lparr>cls_show = True, cls_hide = False, kids = [Txt 68, Caret (Suc ?b)]\<rparr>),
        lines_kids := [?b],
        pending := pending s @ [(Timeout (Fin (char_delay 68)),
            CharWait (?R + 1) (NodeT ?b) (Suc ?b) (tl success_msg) SuccK)]\<rparr>"
      by (rule success_nodes[OF hl])
    have r: "overlayRunId ?c0 = Suc ?R" by simp
    have e: "msg_el ?b c = NodeT ?b" "msg_caret ?b c = Suc ?b"
      using LinesC by (simp_all add: msg_el_def msg_caret_def)
    have 1: "overlayRunId (showProcessingSuccess p s) = Suc ?R" unfolding s1 using r by simp
    have 2: "(1::nat) \<le> length success_msg" by (subst success_msg_Cons) simp
    have 3: "get_kids (NodeT ?b) (showProcessingSuccess p s) =
        map Txt (take 1 success_msg) @ [Caret (Suc ?b)]"
      unfolding s1 by (simp add: get_kids_def take_1_success_msg)
    have 4: "not_old ?R ?b (showProcessingSuccess p s) =
        [CharWait (Suc ?R) (NodeT ?b) (Suc ?b) (drop 1 success_msg) SuccK]"
      unfolding s1 using allold by (simp add: not_old_def old_cont_def drop_1_success_msg)
    have 5: "Suc ?b < next_id (showProcessingSuccess p s)" unfolding s1 by simp
    have 6: "lines_ok ?b (showProcessingSuccess p s)" unfolding s1 by (simp add: lines_ok_def)
    show ?thesis
      unfolding succ_typing_def e using 1 2 3 4 5 6 by simp
  next
    case SubC
    have hl: "\<not> has_lines p" "has_sub p"
      using cont SubC by (auto simp: ensureLinesContainer_def split: if_splits)
    have s1: "showProcessingSuccess p s = ?c0\<lparr>next_id := Suc ?b, sub_kids := [Txt 68, Caret ?b],
        pending := pending s @ [(Timeout (Fin (char_delay 68)),
            CharWait (?R + 1) SubT ?b (tl success_msg) SuccK)]\<rparr>"
      by (rule success_legacy[OF hl])
    have r: "overlayRunId ?c0 = Suc ?R" by simp
    have e: "msg_el ?b c = SubT" "msg_caret ?b c = ?b"
      using SubC by (simp_all add: msg_el_def msg_caret_def)
    have 1: "overlayRunId (showProcessingSuccess p s) = Suc ?R" unfolding s1 using r by simp
    have 2: "(1::nat) \<le> length success_msg" by (subst success_msg_Cons) simp
    have 3: "get_kids SubT (showProcessingSuccess p s) =
        map Txt (take 1 success_msg) @ [Caret ?b]"
      unfolding s1 by (simp add: get_kids_def take_1_success_msg)
    have 4: "not_old ?R ?b (showProcessingSuccess p s) =
        [CharWait (Suc ?R) SubT ?b (drop 1 success_msg) SuccK]"
      unfolding s1 using allold by (simp add: not_old_def old_cont_def drop_1_success_msg)
    have 5: "?b < next_id (showProcessingSuccess p s)" unfolding s1 by simp
    show ?thesis
      unfolding succ_typing_def e using 1 2 3 4 5 SubC by simp
  qed
qed

lemma succ_exec:
  assumes "succ_inv p R b c out t"
  shows "succ_inv p R b c out (exec p (map Fire is) t)"
  using assms
proof (induction "is" arbitrary: t)
  case Nil
  then show ?case by simp
next
  case (Cons i "is")
  have "succ_inv p R b c out (fire p i t)" using Cons.prems by (rule succ_step)
  then show ?case using Cons.IH by simp
qed

lemma shown_texts_typing:
  assumes cont: "ensureLinesContainer p = Some c"
    and gk: "get_kids (msg_el b c) t = map Txt xs @ ys" and ys: "texts ys = []"
    and lo: "c = LinesC \<longrightarrow> lines_ok b t"
  shows "\<exists>q. map texts (shown p t) = xs # replicate q []"
proof (cases c)
  case LinesC
  then obtain stale where st: "lines_kids t = b # stale"
    and a: "\<forall>n\<in>set stale. texts (kids (heap t n)) = []"
    using lo by (auto simp: lines_ok_def)
  have "map (\<lambda>n. texts (kids (heap t n))) stale = replicate (length stale) []"
    using a by (induction stale) simp_all
  then have "map texts (shown p t) = xs # replicate (length stale) []"
    using cont LinesC st gk ys by (simp add: shown_def msg_el_def get_kids_def comp_def)
  then show ?thesis by (rule exI)
next
  case SubC
  then have "map texts (shown p t) = xs # replicate 0 []"
    using cont gk ys by (simp add: shown_def msg_el_def get_kids_def)
  then show ?thesis by (rule exI)
qed

lemma succ_inv_safe:
  assumes cont: "ensureLinesContainer p = Some c"
    and inv: "succ_inv p (overlayRunId s) (next_id s) c (outside_lines (showProcessingSuccess p s)) t"
  shows "success_safe p s t"
proof -
  let ?s1 = "showProcessingSuccess p s"
  have o1: "overlayRunId ?s1 = overlayRunId s + 1"
    using cont by (simp add: overlayRunId_success)
  have c0: "selectedFiles (cancelOverlaySequence p s) = selectedFiles s"
    "overlay_hidden (cancelOverlaySequence p s) = overlay_hidden s"
    by (simp_all add: cancelOverlaySequence_def Let_def)
  have o2: "selectedFiles ?s1 = selectedFiles s \<and> overlay_hidden ?s1 = overlay_hidden s"
  proof (cases c)
    case LinesC
    then have hl: "has_lines p" using cont by (auto simp: ensureLinesContainer_def split: if_splits)
    show ?thesis unfolding success_nodes[OF hl] using c0 by simp
  next
    case SubC
    then have hl: "\<not> has_lines p" "has_sub p"
      using cont by (auto simp: ensureLinesContainer_def split: if_splits)
    show ?thesis unfolding success_legacy[OF hl] using c0 by simp
  qed
  consider j where "succ_typing (overlayRunId s) (next_id s) c (outside_lines ?s1) j t"
    | "succ_settling (overlayRunId s) (next_id s) c (outside_lines ?s1) t"
    | "succ_done p (overlayRunId s) (next_id s) t"
    using inv by (auto simp: succ_inv_def)
  then show ?thesis
  proof cases
    case 1
    then have out: "outside_lines t = outside_lines ?s1"
      and gk: "get_kids (msg_el (next_id s) c) t =
          map Txt (take j success_msg) @ [Caret (msg_caret (next_id s) c)]"
      and lo: "c = LinesC \<longrightarrow> lines_ok (next_id s) t"
      by (simp_all add: succ_typing_def)
    obtain q where "map texts (shown p t) = take j success_msg # replicate q []"
      using shown_texts_typing[OF cont gk _ lo] by auto
    then have "\<exists>j q. map texts (shown p t) = take j success_msg # replicate q []"
      by (intro exI)
    then show ?thesis
      using out o1 o2 unfolding success_safe_def outside_lines_def by simp
  next
    case 2
    then have out: "outside_lines t = outside_lines ?s1"
      and gk: "get_kids (msg_el (next_id s) c) t = map Txt success_msg @ []"
      and lo: "c = LinesC \<longrightarrow> lines_ok (next_id s) t"
      by (simp_all add: succ_settling_def)
    obtain q where "map texts (shown p t) = success_msg # replicate q []"
      using shown_texts_typing[OF cont gk _ lo] by auto
    then have "\<exists>j q. map texts (shown p t) = take j success_msg # replicate q []"
      by (intro exI[of _ "length success_msg"] exI[of _ q]) simp
    then show ?thesis
      using out o1 o2 unfolding success_safe_def outside_lines_def by simp
  next
    case 3
    then show ?thesis by (simp add: success_safe_def succ_done_def)
  qed
qed

lemma success_safe_all:
  assumes cont: "ensureLinesContainer p = Some c" and osr: "only_sequence_runs s"
  shows "success_safe p s (exec p (Succeed # map Fire is) s)"
proof -
  have "succ_inv p (overlayRunId s) (next_id s) c (outside_lines (showProcessingSuccess p s))
          (showProcessingSuccess p s)"
    using succ_init[OF cont osr] by (auto simp: succ_inv_def)
  then have "succ_inv p (overlayRunId s) (next_id s) c (outside_lines (showProcessingSuccess p s))
          (exec p (map Fire is) (showProcessingSuccess p s))"
    by (rule succ_exec)
  then have "success_safe p s (exec p (map Fire is) (showProcessingSuccess p s))"
    by (rule succ_inv_safe[OF cont])
  then show ?thesis by (simp add: step_def)
qed

subsection \<open>Well-formedness of the reachable states\<close>

lemma node_below_mono: "node_below b x \<Longrightarrow> b \<le> b' \<Longrightarrow> node_below b' x"
  by (cases x) simp_all

lemma target_below_mono: "target_below b el \<Longrightarrow> b \<le> b' \<Longrightarrow> target_below b' el"
  by (cases el) simp_all

lemma wf_cont_mono:
  assumes "wf_cont R b k" and "R \<le> R'" and "b \<le> b'"
  shows "wf_cont R' b' k"
  using assms
  by (cases k)
    (auto simp: wf_cont_def split: kont.splits intro: node_below_mono target_below_mono)

lemma wf_cont_old: "wf_cont R b k \<Longrightarrow> seq_cont k \<Longrightarrow> old_cont R b k"
  by (cases k)
    (auto simp: wf_cont_def seq_cont_def old_cont_def split: kont.splits option.splits)

lemma wf_list_mono: "wf_list R b ps \<Longrightarrow> R \<le> R' \<Longrightarrow> b \<le> b' \<Longrightarrow> wf_list R' b' ps"
  by (auto simp: wf_list_def list_all_iff intro: wf_cont_mono)

lemma wf_list_append [simp]: "wf_list R b (ps @ qs) \<longleftrightarrow> wf_list R b ps \<and> wf_list R b qs"
  by (simp add: wf_list_def)

lemma wf_alt: "well_formed s = wf_list (overlayRunId s) (next_id s) (pending s)"
  by (simp add: well_formed_def wf_list_def)

lemma wf_list_drop_nth: "wf_list R b ps \<Longrightarrow> wf_list R b (take i ps @ drop (Suc i) ps)"
  by (auto simp: wf_list_def list_all_iff dest: in_set_takeD in_set_dropD)

lemma wf_list_nth: "wf_list R b ps \<Longrightarrow> i < length ps \<Longrightarrow> wf_cont R b (snd (ps ! i))"
  by (simp add: wf_list_def list_all_length)

lemma parked_wf:
  "(case kk of SeqK fr \<Rightarrow> f_runId fr \<le> R \<and> node_below b (f_currentNode fr) | SuccK \<Rightarrow> True)
   \<Longrightarrow> wf_cont R b (snd (parked kk))"
  by (cases kk) (simp_all add: parked_def wf_cont_def)

lemma next_id_tw_loop [simp]: "next_id (tw_loop r el c cs k s) = next_id s"
  by (cases cs)
    (simp_all add: tw_loop_def resume_caller_parked remove_child_def append_text_def appendChild_def
      sleep_def Let_def)

lemma next_id_typewriterLine [simp]: "next_id (typewriterLine el text r k s) = Suc (next_id s)"
  by (simp add: typewriterLine_def appendChild_def Let_def)

lemma wf_tw_loop:
  assumes "wf_list (overlayRunId s) (next_id s) (pending s)"
    and "wf_cont (overlayRunId s) (next_id s) (CharWait r el c cs kk)"
  shows "well_formed (tw_loop r el c cs kk s)"
proof -
  have kk: "wf_cont (overlayRunId s) (next_id s) (snd (parked kk))"
    using assms(2) by (intro parked_wf) (simp add: wf_cont_def)
  have cw: "cs \<noteq> [] \<longrightarrow> wf_cont (overlayRunId s) (next_id s) (CharWait r el c (tl cs) kk)"
    using assms(2) by (simp add: wf_cont_def)
  show ?thesis
    unfolding wf_alt using assms(1) kk cw
    by (auto simp: pending_tw_loop wf_list_def)
qed

lemma wf_typewriterLine:
  assumes "wf_list (overlayRunId s) (next_id s) (pending s)"
    and "r \<le> overlayRunId s" and "target_below (Suc (next_id s)) el"
    and "case kk of SeqK fr \<Rightarrow> f_runId fr \<le> overlayRunId s \<and>
            node_below (Suc (next_id s)) (f_currentNode fr) | SuccK \<Rightarrow> True"
  shows "well_formed (typewriterLine el text r kk s)"
proof -
  let ?R = "overlayRunId s" and ?b = "Suc (next_id s)"
  have old: "wf_list ?R ?b (pending s)" using assms(1) by (rule wf_list_mono) simp_all
  have kk: "wf_cont ?R ?b (snd (parked kk))" using assms(4) by (rule parked_wf)
  have cw: "wf_cont ?R ?b (CharWait r el (next_id s) (tl text) kk)"
    using assms(2,3,4) by (simp add: wf_cont_def)
  show ?thesis
    unfolding wf_alt using old kk cw
    by (auto simp: pending_typewriterLine wf_list_def)
qed

lemma next_id_seq_body:
  "next_id (seq_body fr l s) = (if f_useNodes fr then Suc (Suc (next_id s)) else Suc (next_id s))"
  by (simp add: seq_body_def requestAnimationFrame_def Let_def)

lemma wf_seq_body:
  assumes "wf_list (overlayRunId s) (next_id s) (pending s)"
    and "f_runId fr \<le> overlayRunId s"
    and "node_below (next_id s) (f_currentNode fr)"
  shows "well_formed (seq_body fr l s)"
proof (cases "f_useNodes fr")
  case True
  let ?n = "next_id s"
  let ?s2 = "requestAnimationFrame (RafShow ?n)
      (s\<lparr>next_id := Suc ?n,
         heap := (heap s)(?n := \<lparr>cls_show = False, cls_hide = False, kids = []\<rparr>),
         lines_kids := removeAll ?n (lines_kids s) @ [?n]\<rparr>)"
  have sb: "seq_body fr l s =
      typewriterLine (NodeT ?n) l (f_runId fr) (SeqK (fr\<lparr>f_currentNode := Some ?n\<rparr>)) ?s2"
    using True by (simp add: seq_body_def Let_def)
  have p2: "pending ?s2 = pending s @ [(AnimationFrame, RafShow ?n)]" "next_id ?s2 = Suc ?n"
    "overlayRunId ?s2 = overlayRunId s"
    by (simp_all add: requestAnimationFrame_def)
  have w2: "wf_list (overlayRunId ?s2) (next_id ?s2) (pending ?s2)"
    unfolding p2 using wf_list_mono[OF assms(1), of "overlayRunId s" "Suc ?n"]
    by (simp add: wf_list_def wf_cont_def)
  show ?thesis
    unfolding sb
    by (rule wf_typewriterLine[OF w2]) (use assms(2) p2 in simp_all)
next
  case False
  have sb: "seq_body fr l s = typewriterLine SubT l (f_runId fr) (SeqK fr) s"
    using False by (simp add: seq_body_def)
  show ?thesis
    unfolding sb
    by (rule wf_typewriterLine[OF assms(1)])
      (use assms(2,3) in \<open>simp_all add: node_below_mono[of "next_id s"]\<close>)
qed

lemma wf_seq_iter:
  assumes "wf_list (overlayRunId s) (next_id s) (pending s)"
    and "f_runId fr \<le> overlayRunId s"
    and "node_below (next_id s) (f_currentNode fr)"
  shows "well_formed (seq_iter fr s)"
proof (cases "f_rest fr")
  case Nil
  then show ?thesis using assms(1) by (simp add: seq_iter_def wf_alt)
next
  case (Cons l ls)
  show ?thesis
  proof (cases "f_runId fr \<noteq> overlayRunId s")
    case True
    then show ?thesis using assms(1) Cons by (simp add: seq_iter_def wf_alt)
  next
    case valid: False
    show ?thesis
    proof (cases "if f_useNodes fr then f_currentNode fr else None")
      case None
      then have "seq_iter fr s = seq_body (fr\<lparr>f_rest := ls\<rparr>) l s"
        using Cons valid by (simp add: seq_iter_def)
      moreover have "well_formed (seq_body (fr\<lparr>f_rest := ls\<rparr>) l s)"
        by (rule wf_seq_body[OF assms(1)]) (use assms(2,3) in simp_all)
      ultimately show ?thesis by simp
    next
      case (Some n)
      then have un: "f_useNodes fr" and cur: "f_currentNode fr = Some n"
        by (auto split: if_splits)
      have si: "seq_iter fr s =
          s\<lparr>heap := (heap s)(n := (heap s n)\<lparr>cls_show := False, cls_hide := True\<rparr>),
            pending := pending s @ [(Timeout (Fin LINE_FADE_MS), FadeWait (fr\<lparr>f_rest := ls\<rparr>) l)]\<rparr>"
        using Cons valid Some by (simp add: seq_iter_def sleep_def)
      have "wf_cont (overlayRunId s) (next_id s) (FadeWait (fr\<lparr>f_rest := ls\<rparr>) l)"
        using assms(2,3) un by (simp add: wf_cont_def)
      then show ?thesis unfolding si wf_alt using assms(1) by (simp add: wf_list_def)
    qed
  qed
qed

lemma wf_after_fade:
  assumes "wf_list (overlayRunId s) (next_id s) (pending s)"
    and "f_runId fr \<le> overlayRunId s"
  shows "well_formed (after_fade fr l s)"
proof (cases "f_currentNode fr")
  case None
  then have "after_fade fr l s = seq_body fr l s" by (simp add: after_fade_def)
  moreover have "well_formed (seq_body fr l s)"
    by (rule wf_seq_body[OF assms(1,2)]) (simp add: None)
  ultimately show ?thesis by simp
next
  case (Some n)
  let ?s1 = "s\<lparr>lines_kids := removeAll n (lines_kids s)\<rparr>"
  have "after_fade fr l s = seq_body (fr\<lparr>f_currentNode := None\<rparr>) l ?s1"
    using Some by (simp add: after_fade_def)
  moreover have "well_formed (seq_body (fr\<lparr>f_currentNode := None\<rparr>) l ?s1)"
    by (rule wf_seq_body) (use assms in simp_all)
  ultimately show ?thesis by simp
qed

lemma wf_cancel: "well_formed s \<Longrightarrow> well_formed (cancelOverlaySequence p s)"
proof -
  assume w: "well_formed s"
  have a: "pending (cancelOverlaySequence p s) = pending s"
    "next_id (cancelOverlaySequence p s) = next_id s"
    by (simp_all add: cancelOverlaySequence_def Let_def)
  have "wf_list (overlayRunId s + 1) (next_id s) (pending s)"
    using w unfolding wf_alt by (rule wf_list_mono) simp_all
  then show ?thesis unfolding wf_alt a by simp
qed

lemma wf_hide: "well_formed s \<Longrightarrow> well_formed (hideProcessingOverlay p s)"
proof -
  assume w: "well_formed s"
  have a: "pending (hideProcessingOverlay p s) = pending s"
    "next_id (hideProcessingOverlay p s) = next_id s"
    by (simp_all add: hideProcessingOverlay_def cancelOverlaySequence_def Let_def)
  have "wf_list (overlayRunId s + 1) (next_id s) (pending s)"
    using w unfolding wf_alt by (rule wf_list_mono) simp_all
  then show ?thesis unfolding wf_alt a by simp
qed

lemma wf_after_settle: "well_formed s \<Longrightarrow> well_formed (after_settle p s)"
proof -
  assume w: "well_formed s"
  have a: "pending (after_settle p s) = pending s" "next_id (after_settle p s) = next_id s"
    by (simp_all add: after_settle_def resetTrainingType_def clearFilesAfterSuccess_def
        hideProcessingOverlay_def cancelOverlaySequence_def Let_def)
  have "wf_list (overlayRunId s + 1) (next_id s) (pending s)"
    using w unfolding wf_alt by (rule wf_list_mono) simp_all
  then show ?thesis unfolding wf_alt a by simp
qed

lemma wf_runOverlaySequence: "well_formed s \<Longrightarrow> well_formed (snd (runOverlaySequence p v s))"
proof -
  assume w: "well_formed s"
  show ?thesis
  proof (cases "ensureLinesContainer p")
    case None
    then show ?thesis using w by (simp add: runOverlaySequence_def)
  next
    case (Some c)
    let ?t = "(if c = LinesC then s\<lparr>overlayRunId := overlayRunId s + 1, lines_kids := []\<rparr>
         else s\<lparr>overlayRunId := overlayRunId s + 1, sub_kids := []\<rparr>)"
    have t: "pending ?t = pending s" "next_id ?t = next_id s" "overlayRunId ?t = overlayRunId s + 1"
      by simp_all
    have wt: "wf_list (overlayRunId ?t) (next_id ?t) (pending ?t)"
      unfolding t using w unfolding wf_alt by (rule wf_list_mono) simp_all
    show ?thesis
    proof (cases "count_of (default_1 v)")
      case (Inl e)
      have "snd (runOverlaySequence p v s) = ?t"
        using Some Inl by (simp add: runOverlaySequence_def Let_def)
      then show ?thesis using wt by (simp add: wf_alt)
    next
      case (Inr cnt)
      show ?thesis
        unfolding runOverlaySequence_unfold[OF Some Inr] snd_conv
        by (rule wf_seq_iter[OF wt]) (simp_all add: t)
    qed
  qed
qed

lemma wf_show: "well_formed s \<Longrightarrow> showProcessingOverlay p v s = Inr s' \<Longrightarrow> well_formed s'"
proof -
  assume w: "well_formed s" and sh: "showProcessingOverlay p v s = Inr s'"
  show ?thesis
  proof (cases "has_overlay p")
    case False
    then show ?thesis using w sh by (simp add: showProcessingOverlay_def)
  next
    case True
    define s1 where "s1 = cancelOverlaySequence p s"
    define s2 where "s2 = (if has_title p then s1\<lparr>title_hidden := True\<rparr> else s1)"
    define s3 where "s3 = s2\<lparr>overlay_hidden := False, aria_hidden := False\<rparr>"
    define s4 where "s4 = initOverlayLottie p s3"
    define s5 where "s5 = (if lottie_loaded s4 then s4\<lparr>lottie_playing := True\<rparr> else s4)"
    have w1: "well_formed s1" unfolding s1_def using w by (rule wf_cancel)
    have w2: "well_formed s2" using w1 by (simp add: s2_def well_formed_def)
    have w3: "well_formed s3" using w2 by (simp add: s3_def well_formed_def)
    have w4: "well_formed s4" using w3 by (simp add: s4_def initOverlayLottie_def well_formed_def)
    have w5: "well_formed s5" using w4 by (simp add: s5_def well_formed_def)
    have "showProcessingOverlay p v s = Inr (snd (runOverlaySequence p (default_1 v) s5))"
      using True
      by (simp add: showProcessingOverlay_def s5_def s4_def s3_def s2_def s1_def Let_def)
    then have "s' = snd (runOverlaySequence p (default_1 v) s5)" using sh by simp
    then show ?thesis using wf_runOverlaySequence[OF w5] by simp
  qed
qed

lemma wf_success: "well_formed s \<Longrightarrow> well_formed (showProcessingSuccess p s)"
proof -
  assume w: "well_formed s"
  let ?s1 = "cancelOverlaySequence p s"
  have w1: "well_formed ?s1" using w by (rule wf_cancel)
  show ?thesis
  proof (cases "ensureLinesContainer p")
    case None
    then show ?thesis using wf_hide[OF w1] by (simp add: showProcessingSuccess_def Let_def)
  next
    case (Some c)
    show ?thesis
    proof (cases "c = LinesC")
      case True
      let ?n = "next_id ?s1"
      let ?s3 = "?s1\<lparr>next_id := Suc ?n,
          heap := (heap ?s1)(?n := \<lparr>cls_show = True, cls_hide = False, kids = []\<rparr>),
          lines_kids := removeAll ?n (lines_kids ?s1) @ [?n]\<rparr>"
      have eq: "showProcessingSuccess p s =
          typewriterLine (NodeT ?n) success_msg (overlayRunId ?s1) SuccK ?s3"
        using Some True by (simp add: showProcessingSuccess_def Let_def)
      have w3: "wf_list (overlayRunId ?s3) (next_id ?s3) (pending ?s3)"
        using wf_list_mono[OF w1[unfolded wf_alt], of "overlayRunId ?s1" "Suc ?n"] by simp
      show ?thesis unfolding eq by (rule wf_typewriterLine[OF w3]) simp_all
    next
      case False
      have eq: "showProcessingSuccess p s =
          typewriterLine SubT success_msg (overlayRunId ?s1) SuccK ?s1"
        using Some False by (simp add: showProcessingSuccess_def Let_def)
      show ?thesis unfolding eq by (rule wf_typewriterLine[OF w1[unfolded wf_alt]]) simp_all
    qed
  qed
qed

lemma wf_fire: "well_formed s \<Longrightarrow> well_formed (fire p i s)"
proof -
  assume w: "well_formed s"
  show ?thesis
  proof (cases "i < length (pending s)")
    case False
    then show ?thesis using w by (simp add: fire_def)
  next
    case True
    let ?t0 = "s\<lparr>pending := take i (pending s) @ drop (Suc i) (pending s)\<rparr>"
    let ?k = "snd (pending s ! i)"
    have f: "fire p i s = resume p ?k ?t0" using True by (rule fire_unfold)
    have w0: "wf_list (overlayRunId ?t0) (next_id ?t0) (pending ?t0)"
      using wf_list_drop_nth[OF w[unfolded wf_alt]] by simp
    have wk: "wf_cont (overlayRunId s) (next_id s) ?k"
      using wf_list_nth[OF w[unfolded wf_alt] True] .
    show ?thesis
    proof (cases ?k)
      case (CharWait r el c rest kk)
      have "well_formed (tw_loop r el c rest kk ?t0)"
        by (rule wf_tw_loop[OF w0]) (use wk CharWait in simp)
      then show ?thesis unfolding f CharWait by (simp add: resume_def)
    next
      case (FadeWait fr l)
      have "well_formed (after_fade fr l ?t0)"
        by (rule wf_after_fade[OF w0]) (use wk FadeWait in \<open>simp add: wf_cont_def\<close>)
      then show ?thesis unfolding f FadeWait by (simp add: resume_def)
    next
      case (GapWait fr)
      have "well_formed (seq_iter fr ?t0)"
        by (rule wf_seq_iter[OF w0]) (use wk GapWait in \<open>simp_all add: wf_cont_def\<close>)
      then show ?thesis unfolding f GapWait by (simp add: resume_def)
    next
      case SettleWait
      have "well_formed ?t0" using w0 by (simp add: wf_alt)
      then have "well_formed (after_settle p ?t0)" by (rule wf_after_settle)
      then show ?thesis unfolding f SettleWait by (simp add: resume_def)
    next
      case (RafShow n)
      have "well_formed ?t0" using w0 by (simp add: wf_alt)
      then show ?thesis unfolding f RafShow by (simp add: resume_def well_formed_def)
    qed
  qed
qed

lemma wf_step: "well_formed s \<Longrightarrow> well_formed (step p e s)"
proof (cases e)
  case (Start v)
  assume w: "well_formed s"
  obtain s' where s': "showProcessingOverlay p v s = Inr s'" using show_returns by blast
  then show ?thesis using Start wf_show[OF w s'] by (simp add: step_def)
next
  case Succeed
  assume "well_formed s"
  then show ?thesis using Succeed by (simp add: step_def wf_success)
next
  case Hide
  assume "well_formed s"
  then show ?thesis using Hide by (simp add: step_def wf_hide)
next
  case (Fire i)
  assume "well_formed s"
  then show ?thesis using Fire by (simp add: step_def wf_fire)
qed

lemma reachable_wf: "reachable p s \<Longrightarrow> well_formed s"
proof (induction rule: reachable.induct)
  case (init s)
  then show ?case by (simp add: well_formed_def)
next
  case (step s e)
  then show ?case by (simp add: wf_step)
qed

lemma reachable_exec: "reachable p s \<Longrightarrow> reachable p (exec p es s)"
proof (induction es arbitrary: s)
  case Nil
  then show ?case by simp
next
  case (Cons e es)
  then show ?case by (simp add: reachable.step)
qed

lemma reachable_only_sequence_runs:
  assumes "reachable p s" and "list_all (\<lambda>x. seq_cont (snd x)) (pending s)"
  shows "only_sequence_runs s"
  using reachable_wf[OF assms(1)] assms(2)
  by (auto simp: only_sequence_runs_def well_formed_def list_all_iff intro: wf_cont_old)

subsection \<open>The completion run on its own\<close>

lemma success_run_alone:
  fixes p :: page and s :: state
  assumes cont: "ensureLinesContainer p = Some c"
  defines "k \<equiv> length (pending s)"
  defines "s1 \<equiv> showProcessingSuccess p s"
  defines "s2 \<equiv> exec p (replicate (length success_msg) (Fire k)) s1"
  defines "s3 \<equiv> fire p k s2"
  shows "overlayRunId s1 = overlayRunId s + 1
       \<and> shown p s1 = [[Txt 68, Caret (if c = LinesC then Suc (next_id s) else next_id s)]]
       \<and> pending s1 = pending s @ [(Timeout (Fin (char_delay 68)),
            CharWait (overlayRunId s + 1) (if c = LinesC then NodeT (next_id s) else SubT)
              (if c = LinesC then Suc (next_id s) else next_id s) (tl success_msg) SuccK)]
       \<and> shown p s2 = [map Txt success_msg]
       \<and> pending s2 = pending s @ [(Timeout (Fin 240), SettleWait)]
       \<and> overlayRunId s2 = overlayRunId s + 1
       \<and> selectedFiles s2 = selectedFiles s
       \<and> overlay_hidden s2 = overlay_hidden s
       \<and> selectedFiles s3 = []
       \<and> (has_overlay p \<longrightarrow> overlay_hidden s3 \<and> aria_hidden s3)
       \<and> shown p s3 = (if c = LinesC then [] else [[]])
       \<and> pending s3 = pending s
       \<and> overlayRunId s3 = overlayRunId s + 2"
proof (cases c)
  case LinesC
  have hl: "has_lines p" using cont LinesC by (auto simp: ensureLinesContainer_def split: if_splits)
  let ?m = "next_id s"
  let ?c0 = "cancelOverlaySequence p s"
  have c0: "overlayRunId ?c0 = overlayRunId s + 1" "selectedFiles ?c0 = selectedFiles s"
    "overlay_hidden ?c0 = overlay_hidden s"
    by (simp_all add: cancelOverlaySequence_def Let_def)
  have s1: "s1 = ?c0\<lparr>next_id := Suc (Suc ?m),
        heap := (heap ?c0)(?m := \<lparr>cls_show = True, cls_hide = False, kids = [Txt 68, Caret (Suc ?m)]\<rparr>),
        lines_kids := [?m],
        pending := pending s @ [(Timeout (Fin (char_delay 68)),
            CharWait (overlayRunId s + 1) (NodeT ?m) (Suc ?m) (tl success_msg) SuccK)]\<rparr>"
    unfolding s1_def by (rule success_nodes[OF hl])
  have s2: "s2 = (set_kids (NodeT ?m) (map Txt ([68] @ tl success_msg)) s1)
                  \<lparr>pending := pending s @ [parked SuccK]\<rparr>"
    unfolding s2_def k_def length_success_msg
    by (rule type_rest_exec[where w = "Timeout (Fin (char_delay 68))" and r = "overlayRunId s + 1"
          and c = "Suc ?m"])
      (simp_all add: s1 c0 get_kids_def)
  have s3: "s3 = after_settle p (s2\<lparr>pending := pending s\<rparr>)"
    unfolding s3_def k_def by (simp add: s2 fire_last parked_def resume_def)
  have a1: "overlayRunId s1 = overlayRunId s + 1" by (simp add: s1 c0)
  have a2: "shown p s1 = [[Txt 68, Caret (Suc ?m)]]"
    using hl by (simp add: s1 shown_def ensureLinesContainer_def)
  have a3: "pending s1 = pending s @ [(Timeout (Fin (char_delay 68)),
            CharWait (overlayRunId s + 1) (NodeT ?m) (Suc ?m) (tl success_msg) SuccK)]"
    by (simp add: s1)
  have b1: "shown p s2 = [map Txt success_msg]"
    using hl success_msg_split
    by (simp add: s2 s1 shown_def ensureLinesContainer_def set_kids_def)
  have b2: "pending s2 = pending s @ [(Timeout (Fin 240), SettleWait)]"
    by (simp add: s2 parked_def)
  have b3: "overlayRunId s2 = overlayRunId s + 1 \<and> selectedFiles s2 = selectedFiles s
      \<and> overlay_hidden s2 = overlay_hidden s"
    by (simp add: s2 s1 c0 set_kids_def)
  have d1: "selectedFiles s3 = []" "has_overlay p \<longrightarrow> overlay_hidden s3 \<and> aria_hidden s3"
    "pending s3 = pending s"
    unfolding s3 using after_settle_facts[of p "s2\<lparr>pending := pending s\<rparr>"] by simp_all
  have d2: "shown p s3 = []"
    unfolding s3 using after_settle_facts(4)[of p "s2\<lparr>pending := pending s\<rparr>"] hl
    by (simp add: shown_def ensureLinesContainer_def)
  have d3: "overlayRunId s3 = overlayRunId s + 2"
    unfolding s3 using b3 by (simp add: after_settle_facts)
  from a1 a2 a3 b1 b2 b3 d1 d2 d3 show ?thesis using LinesC by simp
next
  case SubC
  have hl: "\<not> has_lines p" "has_sub p"
    using cont SubC by (auto simp: ensureLinesContainer_def split: if_splits)
  let ?m = "next_id s"
  let ?c0 = "cancelOverlaySequence p s"
  have c0: "overlayRunId ?c0 = overlayRunId s + 1" "selectedFiles ?c0 = selectedFiles s"
    "overlay_hidden ?c0 = overlay_hidden s"
    by (simp_all add: cancelOverlaySequence_def Let_def)
  have s1: "s1 = ?c0\<lparr>next_id := Suc ?m, sub_kids := [Txt 68, Caret ?m],
        pending := pending s @ [(Timeout (Fin (char_delay 68)),
            CharWait (overlayRunId s + 1) SubT ?m (tl success_msg) SuccK)]\<rparr>"
    unfolding s1_def by (rule success_legacy[OF hl])
  have s2: "s2 = (set_kids SubT (map Txt ([68] @ tl success_msg)) s1)
                  \<lparr>pending := pending s @ [parked SuccK]\<rparr>"
    unfolding s2_def k_def length_success_msg
    by (rule type_rest_exec[where w = "Timeout (Fin (char_delay 68))" and r = "overlayRunId s + 1"
          and c = "?m"])
      (simp_all add: s1 c0 get_kids_def)
  have s3: "s3 = after_settle p (s2\<lparr>pending := pending s\<rparr>)"
    unfolding s3_def k_def by (simp add: s2 fire_last parked_def resume_def)
  have a1: "overlayRunId s1 = overlayRunId s + 1" by (simp add: s1 c0)
  have a2: "shown p s1 = [[Txt 68, Caret ?m]]"
    using cont SubC by (simp add: s1 shown_def)
  have a3: "pending s1 = pending s @ [(Timeout (Fin (char_delay 68)),
            CharWait (overlayRunId s + 1) SubT ?m (tl success_msg) SuccK)]"
    by (simp add: s1)
  have b1: "shown p s2 = [map Txt success_msg]"
    using cont SubC success_msg_split
    by (simp add: s2 s1 shown_def set_kids_def)
  have b2: "pending s2 = pending s @ [(Timeout (Fin 240), SettleWait)]"
    by (simp add: s2 parked_def)
  have b3: "overlayRunId s2 = overlayRunId s + 1 \<and> selectedFiles s2 = selectedFiles s
      \<and> overlay_hidden s2 = overlay_hidden s"
    by (simp add: s2 s1 c0 set_kids_def)
  have d1: "selectedFiles s3 = []" "has_overlay p \<longrightarrow> overlay_hidden s3 \<and> aria_hidden s3"
    "pending s3 = pending s"
    unfolding s3 using after_settle_facts[of p "s2\<lparr>pending := pending s\<rparr>"] by simp_all
  have d2: "shown p s3 = [[]]"
    unfolding s3 using after_settle_facts(5)[of p "s2\<lparr>pending := pending s\<rparr>"] hl cont SubC
    by (simp add: shown_def)
  have d3: "overlayRunId s3 = overlayRunId s + 2"
    unfolding s3 using b3 by (simp add: after_settle_facts)
  from a1 a2 a3 b1 b2 b3 d1 d2 d3 show ?thesis using SubC by simp
qed

subsection \<open>A superseded run never appends a character\<close>

text \<open>
  Whatever parked continuation of an older run fires in a reachable state, the text of every
  existing element stays as it was; an element that it adds to the lines container carries
  no text.
\<close>

lemma pending_remove_child: "pending (remove_child el it t) = pending t"
  by (simp add: remove_child_def)

lemma lines_kids_remove_child: "lines_kids (remove_child el it t) = lines_kids t"
  by (cases el) (simp_all add: remove_child_def set_kids_def)

lemma stale_CharWait:
  assumes "r \<noteq> overlayRunId t"
  shows "resume p (CharWait r el c rest kk) t =
     (if rest = [] then remove_child el (Caret c) t else t)\<lparr>pending := pending t @ [parked kk]\<rparr>"
  using assms
  by (cases rest) (simp_all add: resume_def tw_loop_def resume_caller_parked pending_remove_child)

lemma texts_remove_child:
  "texts (get_kids el' (remove_child el (Caret c) t)) = texts (get_kids el' t)"
  by (cases el; cases el') (simp_all add: remove_child_def get_kids_def set_kids_def)

lemma stale_never_appends_character:
  assumes re: "reachable p s" and i: "i < length (pending s)"
    and cr: "cont_runId (snd (pending s ! i)) = Some r" and st: "r \<noteq> overlayRunId s"
  shows "(\<forall>n<next_id s. texts (kids (heap (fire p i s) n)) = texts (kids (heap s n)))
       \<and> texts (sub_kids (fire p i s)) = texts (sub_kids s)
       \<and> (\<forall>n\<in>set (lines_kids (fire p i s)).
             n \<in> set (lines_kids s) \<or> texts (kids (heap (fire p i s) n)) = [])"
proof -
  let ?t0 = "s\<lparr>pending := take i (pending s) @ drop (Suc i) (pending s)\<rparr>"
  let ?k = "snd (pending s ! i)"
  have f: "fire p i s = resume p ?k ?t0" using i by (rule fire_unfold)
  have wk: "wf_cont (overlayRunId s) (next_id s) ?k"
    using wf_list_nth[OF reachable_wf[OF re, unfolded wf_alt] i] .
  show ?thesis
  proof (cases ?k)
    case (CharWait r' el c rest kk)
    then have "r' \<noteq> overlayRunId ?t0" using cr st by (simp add: cont_runId_def)
    then have eq: "fire p i s =
        (if rest = [] then remove_child el (Caret c) ?t0 else ?t0)\<lparr>pending := pending ?t0 @ [parked kk]\<rparr>"
      unfolding f CharWait by (rule stale_CharWait)
    have a: "texts (get_kids el' (fire p i s)) = texts (get_kids el' s)" for el'
    proof (cases "rest = []")
      case True
      then have "get_kids el' (fire p i s) = get_kids el' (remove_child el (Caret c) ?t0)"
        unfolding eq by (cases el') (simp_all add: get_kids_def)
      then show ?thesis using texts_remove_child[of el' el c ?t0] by simp
    next
      case False
      then show ?thesis unfolding eq by simp
    qed
    have b: "lines_kids (fire p i s) = lines_kids s"
      unfolding eq by (simp add: lines_kids_remove_child)
    have c1: "texts (kids (heap (fire p i s) n)) = texts (kids (heap s n))" for n
      using a[of "NodeT n"] by (simp add: get_kids_def)
    have c2: "texts (sub_kids (fire p i s)) = texts (sub_kids s)"
      using a[of SubT] by (simp add: get_kids_def)
    show ?thesis using c1 c2 b by simp
  next
    case (FadeWait fr l)
    then have un: "f_useNodes fr" and lt: "f_runId fr < overlayRunId ?t0"
      using wk cr st by (simp_all add: wf_cont_def cont_runId_def)
    show ?thesis unfolding f FadeWait old_FadeWait[OF un lt]
      by (auto split: option.splits)
  next
    case (GapWait fr)
    then have "f_runId fr < overlayRunId ?t0"
      using wk cr st by (simp add: wf_cont_def cont_runId_def)
    then have "fire p i s = ?t0" unfolding f GapWait by (rule old_GapWait)
    then show ?thesis by simp
  next
    case SettleWait
    then show ?thesis using cr by (simp add: cont_runId_def)
  next
    case (RafShow n)
    then show ?thesis using cr by (simp add: cont_runId_def)
  qed
qed

section \<open>The claims\<close>

text \<open>
  C1, as amended. When a parked continuation of the overlay sequence wakes up and the run
  identity it captured differs from the current one, then: after the inter-line gap wait
  the run ends at once, and nothing changes but the timer that is gone; after a character
  delay with characters left the typewriter returns at once, no character is appended and
  nothing in the document changes, but the loop parks the gap wait once more (the loop
  tests the identity only at its top); after the delay of the last character the
  typewriter detaches its caret from the element it typed into, without a test, and the
  loop parks the gap wait. The wake-up after the fade is left out of this statement.
\<close>

theorem stale_run_stops_at_its_checks:
  assumes "i < length (pending s)" and "r \<noteq> overlayRunId s"
  shows "(snd (pending s ! i) = GapWait fr \<and> f_runId fr = r \<longrightarrow>
            fire p i s = s\<lparr>pending := take i (pending s) @ drop (Suc i) (pending s)\<rparr>)
       \<and> (snd (pending s ! i) = CharWait r el c (ch # rest) (SeqK fr) \<longrightarrow>
            fire p i s = s\<lparr>pending := take i (pending s) @ drop (Suc i) (pending s) @
                              [(Timeout (f_gapMs fr), GapWait fr)]\<rparr>)
       \<and> (snd (pending s ! i) = CharWait r el c [] (SeqK fr) \<longrightarrow>
            fire p i s = (remove_child el (Caret c) s)
               \<lparr>pending := take i (pending s) @ drop (Suc i) (pending s) @
                              [(Timeout (f_gapMs fr), GapWait fr)]\<rparr>)"
  using assms
  by (auto simp: fire_def resume_def seq_iter_def tw_loop_def resume_caller_def sleep_def
      remove_child_def split: list.splits)

theorem stale_run_stops_at_its_checks_witness:
  "1 < length (pending (exec scenario_page [Start (JNum (Fin 3)), Hide] page_load))
   \<and> 2 \<noteq> overlayRunId (exec scenario_page [Start (JNum (Fin 3)), Hide] page_load)
   \<and> snd (pending (exec scenario_page [Start (JNum (Fin 3)), Hide] page_load) ! 1) =
       CharWait 2 (NodeT 0) 1 [46]
         (SeqK \<lparr>f_runId = 2, f_useNodes = True, f_gapMs = Fin 630, f_currentNode = Some 0,
                f_rest = [[66]]\<rparr>)
   \<and> fire scenario_page 1 (exec scenario_page [Start (JNum (Fin 3)), Hide] page_load) =
       (exec scenario_page [Start (JNum (Fin 3)), Hide] page_load)
         \<lparr>pending := [(AnimationFrame, RafShow 0),
            (Timeout (Fin 630),
             GapWait \<lparr>f_runId = 2, f_useNodes = True, f_gapMs = Fin 630, f_currentNode = Some 0,
                      f_rest = [[66]]\<rparr>)]\<rparr>"
proof -
  let ?s = "exec scenario_page [Start (JNum (Fin 3)), Hide] page_load"
  let ?fr = "\<lparr>f_runId = 2, f_useNodes = True, f_gapMs = Fin 630, f_currentNode = Some 0,
                f_rest = [[66]]\<rparr>"
  have p: "pending ?s = [(AnimationFrame, RafShow 0), (Timeout (Fin 60), CharWait 2 (NodeT 0) 1 [46] (SeqK ?fr))]"
    by (simp add: run_defs)
  have r: "overlayRunId ?s = 3" by (simp add: run_defs)
  have a: "1 < length (pending ?s)" using p by simp
  have b: "2 \<noteq> overlayRunId ?s" using r by simp
  show ?thesis
    using stale_run_stops_at_its_checks[OF a b, where fr = ?fr and el = "NodeT 0" and c = 1
        and ch = 46 and rest = "[]" and p = scenario_page] p r
    by simp
qed

text \<open>
  C1 as stated fails on the code: a run superseded during a character delay does not end
  when it wakes up, it schedules a further delay. After \<^verbatim>\<open>start(3)\<close> and \<^verbatim>\<open>hide()\<close> the
  parked character delay belongs to run 2 while the counter is 3; when it fires, the gap
  wait of 630 ms is parked.
\<close>

theorem gapwait_after_stale_typewriter_counterexample:
  "overlayRunId (exec scenario_page [Start (JNum (Fin 3)), Hide] page_load) = 3
   \<and> cont_runId (snd (pending (exec scenario_page [Start (JNum (Fin 3)), Hide] page_load) ! 1)) = Some 2
   \<and> pending (exec scenario_page [Start (JNum (Fin 3)), Hide, Fire 1] page_load) =
       [(AnimationFrame, RafShow 0),
        (Timeout (Fin 630),
         GapWait \<lparr>f_runId = 2, f_useNodes = True, f_gapMs = Fin 630, f_currentNode = Some 0,
                  f_rest = [[66]]\<rparr>)]"
  by (simp add: run_defs cont_runId_def)

text \<open>
  C2, on the failing input. \<^verbatim>\<open>start(3)\<close> runs until the fade before the second line
  has begun; a second \<^verbatim>\<open>start(1)\<close> supersedes it, clears the container and types its
  first character. When the fade timer of the first run fires, the first run does not
  test its identity: it appends a new line element with a caret to the container, which
  then shows an element of the superseded run next to the line of the newest run.
\<close>

theorem superseded_fade_leaves_stale_line:
  "overlayRunId (exec scenario_page
      [Start (JNum (Fin 3)), Fire 0, Fire 0, Fire 0, Fire 0, Start (JNum (Fin 1)), Fire 0]
      page_load) = 4
   \<and> shown scenario_page (exec scenario_page
      [Start (JNum (Fin 3)), Fire 0, Fire 0, Fire 0, Fire 0, Start (JNum (Fin 1))]
      page_load) = [[Txt 65, Caret 3]]
   \<and> cont_runId (snd (pending (exec scenario_page
      [Start (JNum (Fin 3)), Fire 0, Fire 0, Fire 0, Fire 0, Start (JNum (Fin 1))]
      page_load) ! 0)) = Some 2
   \<and> shown scenario_page (exec scenario_page
      [Start (JNum (Fin 3)), Fire 0, Fire 0, Fire 0, Fire 0, Start (JNum (Fin 1)), Fire 0]
      page_load) = [[Txt 65, Caret 3], [Caret 5]]"
  by (simp add: run_defs shown_def cont_runId_def)

text \<open>
  C3. On a page with a narration container, \<^verbatim>\<open>showProcessingSuccess\<close> called in any
  state (whatever continuations of earlier runs are parked) increments the run identity
  and clears the container before it shows anything of its own; the container then
  shows one element with the first character of the completion message, and one
  character delay is parked behind the parked continuations of earlier runs. When this
  timer has fired once per character of the message, the container shows exactly the
  completion message without a caret, nothing else has been revealed, and the settle
  delay of 240 ms is parked. When the settle delay fires, the selected files and the
  training type are cleared, the container is emptied and the overlay is hidden.
  Moreover, when the call is made in a reachable state in which only continuations of
  overlay sequences are parked, then after any number of timers firing in any order the
  container shows a prefix of the completion message and no other character (so no
  character of the superseded run appears), with files, overlay and counter untouched,
  until the completion run itself has hidden the overlay and cleared the files.
\<close>

theorem success_reveals_message_then_hides:
  fixes p :: page and s :: state
  assumes cont: "ensureLinesContainer p = Some c"
  defines "k \<equiv> length (pending s)"
  defines "s1 \<equiv> showProcessingSuccess p s"
  defines "s2 \<equiv> exec p (replicate (length success_msg) (Fire k)) s1"
  defines "s3 \<equiv> fire p k s2"
  shows "(overlayRunId s1 = overlayRunId s + 1
       \<and> shown p s1 = [[Txt 68, Caret (if c = LinesC then Suc (next_id s) else next_id s)]]
       \<and> pending s1 = pending s @ [(Timeout (Fin (char_delay 68)),
            CharWait (overlayRunId s + 1) (if c = LinesC then NodeT (next_id s) else SubT)
              (if c = LinesC then Suc (next_id s) else next_id s) (tl success_msg) SuccK)]
       \<and> shown p s2 = [map Txt success_msg]
       \<and> pending s2 = pending s @ [(Timeout (Fin 240), SettleWait)]
       \<and> overlayRunId s2 = overlayRunId s + 1
       \<and> selectedFiles s2 = selectedFiles s
       \<and> overlay_hidden s2 = overlay_hidden s
       \<and> selectedFiles s3 = []
       \<and> (has_overlay p \<longrightarrow> overlay_hidden s3 \<and> aria_hidden s3)
       \<and> shown p s3 = (if c = LinesC then [] else [[]])
       \<and> pending s3 = pending s
       \<and> overlayRunId s3 = overlayRunId s + 2)
       \<and> (reachable p s \<and> list_all (\<lambda>x. seq_cont (snd x)) (pending s) \<longrightarrow>
            (\<forall>js. success_safe p s (exec p (Succeed # map Fire js) s)))"
proof -
  have a: "overlayRunId s1 = overlayRunId s + 1
       \<and> shown p s1 = [[Txt 68, Caret (if c = LinesC then Suc (next_id s) else next_id s)]]
       \<and> pending s1 = pending s @ [(Timeout (Fin (char_delay 68)),
            CharWait (overlayRunId s + 1) (if c = LinesC then NodeT (next_id s) else SubT)
              (if c = LinesC then Suc (next_id s) else next_id s) (tl success_msg) SuccK)]
       \<and> shown p s2 = [map Txt success_msg]
       \<and> pending s2 = pending s @ [(Timeout (Fin 240), SettleWait)]
       \<and> overlayRunId s2 = overlayRunId s + 1
       \<and> selectedFiles s2 = selectedFiles s
       \<and> overlay_hidden s2 = overlay_hidden s
       \<and> selectedFiles s3 = []
       \<and> (has_overlay p \<longrightarrow> overlay_hidden s3 \<and> aria_hidden s3)
       \<and> shown p s3 = (if c = LinesC then [] else [[]])
       \<and> pending s3 = pending s
       \<and> overlayRunId s3 = overlayRunId s + 2"
    unfolding s3_def s2_def s1_def k_def by (rule success_run_alone[OF cont])
  have b: "reachable p s \<and> list_all (\<lambda>x. seq_cont (snd x)) (pending s) \<longrightarrow>
            (\<forall>js. success_safe p s (exec p (Succeed # map Fire js) s))"
    using success_safe_all[OF cont reachable_only_sequence_runs] by blast
  from a b show ?thesis by (rule conjI)
qed

theorem success_reveals_message_then_hides_witness:
  "ensureLinesContainer scenario_page = Some LinesC \<and> has_overlay scenario_page
   \<and> length (pending (exec scenario_page [Start (JNum (Fin 3))] page_load)) = 2
   \<and> shown scenario_page
        (exec scenario_page (Start (JNum (Fin 3)) # Succeed # replicate (length success_msg) (Fire 2))
           page_load) = [map Txt success_msg]
   \<and> selectedFiles
        (exec scenario_page
           (Start (JNum (Fin 3)) # Succeed # replicate (length success_msg) (Fire 2) @ [Fire 2])
           page_load) = []
   \<and> overlay_hidden
        (exec scenario_page
           (Start (JNum (Fin 3)) # Succeed # replicate (length success_msg) (Fire 2) @ [Fire 2])
           page_load)
   \<and> reachable scenario_page (exec scenario_page [Start (JNum (Fin 3))] page_load)
   \<and> list_all (\<lambda>x. seq_cont (snd x)) (pending (exec scenario_page [Start (JNum (Fin 3))] page_load))
   \<and> success_safe scenario_page (exec scenario_page [Start (JNum (Fin 3))] page_load)
        (exec scenario_page (Succeed # map Fire [1, 0, 1])
           (exec scenario_page [Start (JNum (Fin 3))] page_load))"
proof -
  let ?s = "exec scenario_page [Start (JNum (Fin 3))] page_load"
  have a: "ensureLinesContainer scenario_page = Some LinesC"
    by (simp add: scenario_page_def ensureLinesContainer_def)
  have b: "has_overlay scenario_page" by (simp add: scenario_page_def)
  have c: "length (pending ?s) = 2" by (simp add: run_defs)
  have d: "reachable scenario_page ?s"
    by (rule reachable_exec, rule reachable.init) (simp add: page_load_def)
  have e: "list_all (\<lambda>x. seq_cont (snd x)) (pending ?s)"
    by (simp add: run_defs seq_cont_def)
  have e1: "exec scenario_page (Start (JNum (Fin 3)) # Succeed # replicate (length success_msg) (Fire 2)) page_load
     = exec scenario_page (replicate (length success_msg) (Fire 2)) (showProcessingSuccess scenario_page ?s)"
    by (simp add: step_def)
  have e2: "exec scenario_page
           (Start (JNum (Fin 3)) # Succeed # replicate (length success_msg) (Fire 2) @ [Fire 2])
           page_load
     = fire scenario_page 2 (exec scenario_page (replicate (length success_msg) (Fire 2)) (showProcessingSuccess scenario_page ?s))"
    by (simp add: step_def)
  note t = success_reveals_message_then_hides[OF a, of ?s]
  have g: "success_safe scenario_page ?s (exec scenario_page (Succeed # map Fire [1, 0, 1]) ?s)"
    using t d e by blast
  show ?thesis
    unfolding e1 e2 using t a b c d e g by simp
qed

text \<open>
  C4. On a page with the overlay and a narration container, a call of
  \<^verbatim>\<open>showProcessingOverlay\<close> with a count that converts to a number, made while no
  continuation is parked, followed by the firing of the run's timers one after the other
  with no other call in between, completes exactly one reveal per line of the queue, in
  the order of the queue; at each of them the container shows one element whose children
  are exactly the characters of that line. After \<open>run_length\<close> timers nothing is parked
  any more, the selected files are untouched, the overlay is still shown and the run
  identity is the one the run captured: the completion is not invoked.
\<close>

theorem uninterrupted_run_reveals_every_line:
  assumes ov: "has_overlay p" and cont: "ensureLinesContainer p \<noteq> None"
    and conv: "converts v" and idle: "pending s = []"
  shows "reveals p (Start v # replicate (run_length p) (Fire 0)) s =
           map (\<lambda>l. [map Txt l]) (overlay_lines p)
       \<and> pending (exec p (Start v # replicate (run_length p) (Fire 0)) s) = []
       \<and> selectedFiles (exec p (Start v # replicate (run_length p) (Fire 0)) s) = selectedFiles s
       \<and> \<not> overlay_hidden (exec p (Start v # replicate (run_length p) (Fire 0)) s)
       \<and> overlayRunId (exec p (Start v # replicate (run_length p) (Fire 0)) s) = overlayRunId s + 2"
proof -
  obtain c where c: "ensureLinesContainer p = Some c" using cont by auto
  obtain cnt where cnt: "count_of (default_1 v) = Inr cnt" using count_of_defined[OF conv] by blast
  define fr0 where "fr0 = \<lparr>f_runId = overlayRunId s + 2, f_useNodes = (c = LinesC),
                  f_gapMs = gapMs_of cnt, f_currentNode = None, f_rest = overlay_lines p\<rparr>"
  obtain t0 where st: "showProcessingOverlay p v s = Inr (seq_iter fr0 t0)"
    and t0: "pending t0 = []" "overlayRunId t0 = overlayRunId s + 2" "c = LinesC \<longrightarrow> lines_kids t0 = []"
      "selectedFiles t0 = selectedFiles s" "\<not> overlay_hidden t0"
    using start_unfold[OF ov c cnt, of s] idle unfolding fr0_def by auto
  have step: "step p (Start v) s = seq_iter fr0 t0" by (simp add: step_def st)
  have out0: "outside_lines t0 = (overlayRunId s + 2, selectedFiles s, selectedTrainType t0,
      False, aria_hidden t0, title_hidden t0, dots_text t0, lottie_loaded t0, lottie_playing t0)"
    using t0 by (simp add: outside_lines_def)
  have gs: "gap_frames s = []" using idle by (simp add: gap_frames_def)
  have goal: "reveals p (Start v # replicate (run_length p) (Fire 0)) s =
           map (\<lambda>l. [map Txt l]) (overlay_lines p)
       \<and> pending (exec p (Start v # replicate (run_length p) (Fire 0)) s) = []
       \<and> outside_lines (exec p (Start v # replicate (run_length p) (Fire 0)) s) = outside_lines t0"
  proof (cases "overlay_lines p")
    case Nil
    have "seq_iter fr0 t0 = t0" by (simp add: seq_iter_def fr0_def Nil)
    moreover have "\<not> reveal_done s t0" using t0(1) by (simp add: reveal_done_def gap_frames_def)
    ultimately show ?thesis using t0(1) by (simp add: step run_length_def Nil Let_def)
  next
    case (Cons l ls)
    let ?fr = "fr0\<lparr>f_rest := ls\<rparr>"
    let ?t1 = "seq_body ?fr l t0"
    have it: "seq_iter fr0 t0 = ?t1"
      by (rule seq_iter_first) (simp_all add: fr0_def Cons t0)
    show ?thesis
    proof (cases c)
      case LinesC
      have hl: "has_lines p" using c LinesC by (auto simp: ensureLinesContainer_def split: if_splits)
      let ?m = "next_id t0"
      let ?fr' = "?fr\<lparr>f_currentNode := Some ?m\<rparr>"
      let ?tf = "t0\<lparr>next_id := Suc (Suc ?m),
        heap := (heap t0)(?m := \<lparr>cls_show = True, cls_hide = False, kids = map Txt l\<rparr>),
        lines_kids := [?m],
        pending := [(Timeout (f_gapMs ?fr), GapWait ?fr')]\<rparr>"
      have b: "exec p (replicate (Suc (length l)) (Fire 0)) ?t1 = ?tf"
        "(if reveal_done s ?t1 then [shown p ?t1] else []) @
           reveals p (replicate (Suc (length l)) (Fire 0)) ?t1 = [[map Txt l]]"
        using body_nodes[of t0 ?fr p s l] t0 hl gs LinesC by (simp_all add: fr0_def)
      have lp: "reveals p (replicate (steps_after True ls) (Fire 0)) ?tf = map (\<lambda>l. [map Txt l]) ls
         \<and> pending (exec p (replicate (steps_after True ls) (Fire 0)) ?tf) = []
         \<and> outside_lines (exec p (replicate (steps_after True ls) (Fire 0)) ?tf) = outside_lines ?tf"
        by (rule loop_nodes[where fr = ?fr' and n = ?m]) (use t0 hl LinesC in \<open>simp_all add: fr0_def\<close>)
      have rl: "run_length p = Suc (length l) + steps_after True ls"
        using hl by (simp add: run_length_def Cons)
      have e: "exec p (Start v # replicate (run_length p) (Fire 0)) s =
          exec p (replicate (steps_after True ls) (Fire 0)) ?tf"
        unfolding rl replicate_add by (simp add: step it b(1) del: replicate_Suc)
      have r: "reveals p (Start v # replicate (run_length p) (Fire 0)) s =
          [[map Txt l]] @ reveals p (replicate (steps_after True ls) (Fire 0)) ?tf"
        unfolding rl replicate_add using b(2)
        by (cases "reveal_done s ?t1")
          (simp_all add: step it b(1) reveals_append Let_def del: replicate_Suc)
      show ?thesis unfolding e r using lp by (simp add: Cons)
    next
      case SubC
      have hl: "ensureLinesContainer p = Some SubC" using c SubC by simp
      let ?tf = "t0\<lparr>next_id := Suc (next_id t0), sub_kids := map Txt l,
        pending := [(Timeout (f_gapMs ?fr), GapWait ?fr)]\<rparr>"
      have b: "exec p (replicate (length l) (Fire 0)) ?t1 = ?tf"
        "(if reveal_done s ?t1 then [shown p ?t1] else []) @
           reveals p (replicate (length l) (Fire 0)) ?t1 = [[map Txt l]]"
        using body_legacy[of t0 ?fr p s l] t0 hl gs SubC by (simp_all add: fr0_def)
      have lp: "reveals p (replicate (steps_after False ls) (Fire 0)) ?tf = map (\<lambda>l. [map Txt l]) ls
         \<and> pending (exec p (replicate (steps_after False ls) (Fire 0)) ?tf) = []
         \<and> outside_lines (exec p (replicate (steps_after False ls) (Fire 0)) ?tf) = outside_lines ?tf"
        by (rule loop_legacy[where fr = ?fr]) (use t0 hl SubC in \<open>simp_all add: fr0_def\<close>)
      have nl: "\<not> has_lines p" using hl by (auto simp: ensureLinesContainer_def split: if_splits)
      have rl: "run_length p = length l + steps_after False ls"
        using nl by (simp add: run_length_def Cons)
      have e: "exec p (Start v # replicate (run_length p) (Fire 0)) s =
          exec p (replicate (steps_after False ls) (Fire 0)) ?tf"
        unfolding rl replicate_add by (simp add: step it b(1) del: replicate_Suc)
      have r: "reveals p (Start v # replicate (run_length p) (Fire 0)) s =
          [[map Txt l]] @ reveals p (replicate (steps_after False ls) (Fire 0)) ?tf"
        unfolding rl replicate_add using b(2)
        by (cases "reveal_done s ?t1")
          (simp_all add: step it b(1) reveals_append Let_def del: replicate_Suc)
      show ?thesis unfolding e r using lp by (simp add: Cons)
    qed
  qed
  then show ?thesis unfolding out0 by (simp add: outside_lines_def)
qed

theorem uninterrupted_run_reveals_every_line_witness:
  "has_overlay scenario_page \<and> ensureLinesContainer scenario_page \<noteq> None
   \<and> converts (JNum (Fin 3)) \<and> pending page_load = []
   \<and> run_length scenario_page = 8
   \<and> reveals scenario_page (Start (JNum (Fin 3)) # replicate (run_length scenario_page) (Fire 0))
        page_load = [[[Txt 65, Txt 46]], [[Txt 66]]]
   \<and> pending (exec scenario_page
        (Start (JNum (Fin 3)) # replicate (run_length scenario_page) (Fire 0)) page_load) = []"
proof -
  have a: "has_overlay scenario_page" by (simp add: scenario_page_def)
  have b: "ensureLinesContainer scenario_page \<noteq> None"
    by (simp add: scenario_page_def ensureLinesContainer_def)
  have c: "converts (JNum (Fin 3))" by (simp add: converts_def)
  have d: "pending page_load = []" by (simp add: page_load_def)
  have e: "run_length scenario_page = 8" by (simp add: run_length_def scenario_page_def js_str_def)
  have f: "map (\<lambda>l. [map Txt l]) (overlay_lines scenario_page) = [[[Txt 65, Txt 46]], [[Txt 66]]]"
    by (simp add: scenario_page_def js_str_def)
  from uninterrupted_run_reveals_every_line[OF a b c d] a b c d e f show ?thesis by simp
qed

text \<open>
  C5. In every state, with any continuations parked, \<^verbatim>\<open>hideProcessingOverlay\<close>
  increments the run identity by one, empties every narration element that exists (so
  the container shows nothing), marks the overlay hidden if it exists, parks no timer,
  and a second call changes nothing but the counter.
\<close>

theorem hide_clears_and_is_idempotent:
  "overlayRunId (hideProcessingOverlay p s) = overlayRunId s + 1
   \<and> (has_lines p \<longrightarrow> lines_kids (hideProcessingOverlay p s) = [])
   \<and> (has_sub p \<longrightarrow> sub_kids (hideProcessingOverlay p s) = [])
   \<and> (has_dots p \<longrightarrow> dots_text (hideProcessingOverlay p s) = [])
   \<and> (has_overlay p \<longrightarrow>
        overlay_hidden (hideProcessingOverlay p s) \<and> aria_hidden (hideProcessingOverlay p s))
   \<and> (ensureLinesContainer p \<noteq> None \<longrightarrow> shown p (hideProcessingOverlay p s) = shown p (s\<lparr>lines_kids := [], sub_kids := []\<rparr>))
   \<and> pending (hideProcessingOverlay p s) = pending s
   \<and> hideProcessingOverlay p (hideProcessingOverlay p s) =
        (hideProcessingOverlay p s)\<lparr>overlayRunId := overlayRunId s + 2\<rparr>"
proof -
  have a: "overlayRunId (hideProcessingOverlay p s) = overlayRunId s + 1" by simp
  have b: "has_lines p \<longrightarrow> lines_kids (hideProcessingOverlay p s) = []"
    by (simp add: hideProcessingOverlay_def cancelOverlaySequence_def Let_def)
  have c: "has_sub p \<longrightarrow> sub_kids (hideProcessingOverlay p s) = []"
    by (simp add: hideProcessingOverlay_def cancelOverlaySequence_def Let_def)
  have d: "has_dots p \<longrightarrow> dots_text (hideProcessingOverlay p s) = []"
    by (simp add: hideProcessingOverlay_def cancelOverlaySequence_def Let_def)
  have e: "has_overlay p \<longrightarrow>
        overlay_hidden (hideProcessingOverlay p s) \<and> aria_hidden (hideProcessingOverlay p s)"
    by (simp add: hideProcessingOverlay_def cancelOverlaySequence_def Let_def)
  have f: "pending (hideProcessingOverlay p s) = pending s"
    by (simp add: hideProcessingOverlay_def cancelOverlaySequence_def Let_def)
  have g: "ensureLinesContainer p \<noteq> None \<longrightarrow> shown p (hideProcessingOverlay p s) = shown p (s\<lparr>lines_kids := [], sub_kids := []\<rparr>)"
    by (simp add: hideProcessingOverlay_def cancelOverlaySequence_def Let_def shown_def ensureLinesContainer_def)
  from a b c d e f g hide_twice show ?thesis by blast
qed

theorem hide_clears_and_is_idempotent_witness:
  "has_lines scenario_page \<and> has_sub scenario_page \<and> has_dots scenario_page
   \<and> has_overlay scenario_page \<and> ensureLinesContainer scenario_page \<noteq> None
   \<and> lines_kids (exec scenario_page [Start (JNum (Fin 3)), Fire 0] page_load) = [0]
   \<and> lines_kids (hideProcessingOverlay scenario_page
        (exec scenario_page [Start (JNum (Fin 3)), Fire 0] page_load)) = []
   \<and> overlay_hidden (hideProcessingOverlay scenario_page
        (exec scenario_page [Start (JNum (Fin 3)), Fire 0] page_load))
   \<and> shown scenario_page (hideProcessingOverlay scenario_page
        (exec scenario_page [Start (JNum (Fin 3)), Fire 0] page_load)) = []
   \<and> overlayRunId (hideProcessingOverlay scenario_page
        (exec scenario_page [Start (JNum (Fin 3)), Fire 0] page_load)) = 3"
proof -
  let ?s = "exec scenario_page [Start (JNum (Fin 3)), Fire 0] page_load"
  have a: "has_lines scenario_page \<and> has_sub scenario_page \<and> has_dots scenario_page
   \<and> has_overlay scenario_page \<and> ensureLinesContainer scenario_page \<noteq> None"
    by (simp add: scenario_page_def ensureLinesContainer_def)
  have b: "lines_kids ?s = [0]" "overlayRunId ?s = 2" by (simp_all add: run_defs)
  have c: "shown scenario_page (?s\<lparr>lines_kids := [], sub_kids := []\<rparr>) = []"
    by (simp add: shown_def scenario_page_def ensureLinesContainer_def)
  show ?thesis
    using hide_clears_and_is_idempotent[of scenario_page ?s] a b c by simp
qed

text \<open>
  C6. For a count hint \<open>n \<ge> 1\<close> the count is \<open>n\<close> and the inter-line gap is the base gap
  times \<open>n\<close>, capped at 1200 ms: it is the base gap for a count of 1, the product up to a
  count of 5, and 1200 ms from 6 on.
\<close>

theorem gap_linear_then_capped:
  assumes "1 \<le> n"
  shows "count_of (JNum (Fin n)) = Inr (Fin n)
       \<and> gapMs_of (Fin n) = Fin (min 1200 (LINE_GAP_BASE_MS * n))
       \<and> gapMs_of (Fin 1) = Fin LINE_GAP_BASE_MS
       \<and> (if n \<le> 5 then gapMs_of (Fin n) = Fin (LINE_GAP_BASE_MS * n)
           else gapMs_of (Fin n) = Fin 1200)"
  using assms count_of_int[of n] gapMs_of_int[of n] gapMs_of_int[of 1]
  by (auto simp: LINE_GAP_BASE_MS_def)

theorem gap_linear_then_capped_witness:
  "count_of (JNum (Fin 3)) = Inr (Fin 3) \<and> gapMs_of (Fin 3) = Fin 630
   \<and> gapMs_of (Fin 1) = Fin 210 \<and> gapMs_of (Fin 6) = Fin 1200 \<and> gapMs_of (Fin 40) = Fin 1200"
  using gap_linear_then_capped[of 3] gap_linear_then_capped[of 6] gap_linear_then_capped[of 40]
  by (simp add: LINE_GAP_BASE_MS_def)

text \<open>
  C7. No transition decreases the run identity; \<^verbatim>\<open>cancelOverlaySequence\<close> adds one. A
  run that starts adds one and its parked continuations carry the new value. The
  typewriter stops before a character exactly when its captured value differs from the
  counter, and the loop over the queue stops at its top exactly when the queue is used
  up or the captured value differs.
\<close>

theorem run_identity_monotone:
  "overlayRunId s \<le> overlayRunId (step p e s)
   \<and> overlayRunId (cancelOverlaySequence p s) = overlayRunId s + 1
   \<and> (ensureLinesContainer p \<noteq> None \<longrightarrow>
        overlayRunId (snd (runOverlaySequence p v s)) = overlayRunId s + 1
        \<and> (\<forall>x\<in>set (pending (snd (runOverlaySequence p v s))).
             x \<in> set (pending s) \<or> cont_runId (snd x) = None
             \<or> cont_runId (snd x) = Some (overlayRunId (snd (runOverlaySequence p v s)))))
   \<and> (tw_loop r el c (ch # rest) k s = resume_caller k s \<longleftrightarrow> r \<noteq> overlayRunId s)
   \<and> (seq_iter fr s = s \<longleftrightarrow> f_rest fr = [] \<or> f_runId fr \<noteq> overlayRunId s)"
proof -
  have a: "overlayRunId s \<le> overlayRunId (step p e s)" by (rule overlayRunId_step)
  have b: "overlayRunId (cancelOverlaySequence p s) = overlayRunId s + 1" by simp
  have c: "ensureLinesContainer p \<noteq> None \<longrightarrow>
        overlayRunId (snd (runOverlaySequence p v s)) = overlayRunId s + 1"
    by (simp add: overlayRunId_runOverlaySequence)
  have d: "ensureLinesContainer p \<noteq> None \<longrightarrow>
      (\<forall>x\<in>set (pending (snd (runOverlaySequence p v s))).
             x \<in> set (pending s) \<or> cont_runId (snd x) = None
             \<or> cont_runId (snd x) = Some (overlayRunId (snd (runOverlaySequence p v s))))"
    using captured_runOverlaySequence by blast
  from a b c d tw_loop_aborts_iff seq_iter_stops_iff show ?thesis by blast
qed

theorem run_identity_monotone_witness:
  "ensureLinesContainer scenario_page \<noteq> None
   \<and> overlayRunId page_load = 0
   \<and> overlayRunId (snd (runOverlaySequence scenario_page (JNum (Fin 3)) page_load)) = 1
   \<and> overlayRunId page_load \<le> overlayRunId (step scenario_page Hide page_load)
   \<and> map (\<lambda>x. cont_runId (snd x))
        (pending (snd (runOverlaySequence scenario_page (JNum (Fin 3)) page_load))) =
       [None, Some 1]"
proof -
  have a: "ensureLinesContainer scenario_page \<noteq> None"
    by (simp add: scenario_page_def ensureLinesContainer_def)
  have b: "overlayRunId page_load = 0" "pending page_load = []" by (simp_all add: page_load_def)
  have c: "map (\<lambda>x. cont_runId (snd x))
        (pending (snd (runOverlaySequence scenario_page (JNum (Fin 3)) page_load))) =
       [None, Some 1]"
    by (simp add: run_defs cont_runId_def)
  show ?thesis
    using run_identity_monotone[where s = page_load and p = scenario_page and e = Hide
        and v = "JNum (Fin 3)" and r = 1 and el = SubT and c = 0 and ch = 65 and rest = "[]"
        and k = SuccK
        and fr = "\<lparr>f_runId = 1, f_useNodes = True, f_gapMs = Fin 210, f_currentNode = None,
                  f_rest = []\<rparr>"] a b c
    by simp
qed

text \<open>
  C8. \<^verbatim>\<open>showProcessingOverlay\<close> returns normally for every argument and state. Without
  the overlay element it returns the state unchanged. \<^verbatim>\<open>runOverlaySequence\<close> without a
  narration container returns the state unchanged. When \<^verbatim>\<open>Number\<close> throws on the
  argument, the promise of \<^verbatim>\<open>runOverlaySequence\<close> is rejected, no timer is parked and
  the caller still returns.
\<close>

theorem start_never_throws:
  "(\<exists>s'. showProcessingOverlay p v s = Inr s')
   \<and> (\<not> has_overlay p \<longrightarrow> showProcessingOverlay p v s = Inr s)
   \<and> (ensureLinesContainer p = None \<longrightarrow> runOverlaySequence p v s = (None, s))
   \<and> (ensureLinesContainer p \<noteq> None \<longrightarrow>
        fst (runOverlaySequence p JSymbol s) = Some TypeError
        \<and> pending (snd (runOverlaySequence p JSymbol s)) = pending s)"
proof -
  have a: "\<exists>s'. showProcessingOverlay p v s = Inr s'" by (rule show_returns)
  have b: "\<not> has_overlay p \<longrightarrow> showProcessingOverlay p v s = Inr s"
    by (simp add: showProcessingOverlay_def)
  have c: "ensureLinesContainer p = None \<longrightarrow> runOverlaySequence p v s = (None, s)"
    by (simp add: runOverlaySequence_def)
  have d: "ensureLinesContainer p \<noteq> None \<longrightarrow>
        fst (runOverlaySequence p JSymbol s) = Some TypeError
        \<and> pending (snd (runOverlaySequence p JSymbol s)) = pending s"
    by (auto simp: runOverlaySequence_def Let_def count_of_def default_1_def)
  from a b c d show ?thesis by blast
qed

theorem start_never_throws_witness:
  "\<not> has_overlay bare_page \<and> ensureLinesContainer bare_page = None
   \<and> ensureLinesContainer scenario_page \<noteq> None
   \<and> showProcessingOverlay bare_page JSymbol page_load = Inr page_load
   \<and> runOverlaySequence bare_page (JNum (Fin 3)) page_load = (None, page_load)
   \<and> fst (runOverlaySequence scenario_page JSymbol page_load) = Some TypeError
   \<and> (\<exists>s'. showProcessingOverlay scenario_page JSymbol page_load = Inr s')"
proof -
  have a: "\<not> has_overlay bare_page" "ensureLinesContainer bare_page = None"
    by (simp_all add: bare_page_def ensureLinesContainer_def)
  have b: "ensureLinesContainer scenario_page \<noteq> None"
    by (simp add: scenario_page_def ensureLinesContainer_def)
  show ?thesis
    using start_never_throws[of bare_page JSymbol page_load]
      start_never_throws[of bare_page "JNum (Fin 3)" page_load]
      start_never_throws[of scenario_page JSymbol page_load] a b
    by simp
qed

text \<open>
  C9, as amended. After each character it appends, the typewriter parks a delay of the
  base delay, extended by three times the base delay exactly for the characters
  \<open>.\<close>, \<open>!\<close>, \<open>?\<close> and the comma.
\<close>

theorem pause_after_each_character:
  assumes "runId = overlayRunId s"
  shows "pending (tw_loop runId el caret (ch # rest) k s) =
     pending s @
       [(Timeout (Fin (LINE_TYPE_SPEED_MS +
            (if spec_sentence_ending ch \<or> ch = of_char CHR '','' then 3 * LINE_TYPE_SPEED_MS else 0))),
         CharWait runId el caret rest k)]"
  using pending_tw_loop_valid[OF assms] char_delay_eq by simp

theorem pause_after_each_character_witness:
  "(0::nat) = overlayRunId page_load
   \<and> pending (tw_loop 0 SubT 7 [of_char CHR ''?'', of_char CHR ''a''] SuccK page_load) =
       [(Timeout (Fin 240), CharWait 0 SubT 7 [of_char CHR ''a''] SuccK)]
   \<and> pending (tw_loop 0 SubT 7 [of_char CHR ''a''] SuccK page_load) =
       [(Timeout (Fin 60), CharWait 0 SubT 7 [] SuccK)]"
proof -
  have a: "(0::nat) = overlayRunId page_load" by (simp add: page_load_def)
  have b: "pending page_load = []" by (simp add: page_load_def)
  show ?thesis
    using pause_after_each_character[OF a, of SubT 7 "of_char CHR ''?''" "[of_char CHR ''a'']" SuccK]
      pause_after_each_character[OF a, of SubT 7 "of_char CHR ''a''" "[]" SuccK] a b
    by (simp add: spec_sentence_ending_def LINE_TYPE_SPEED_MS_def)
qed

text \<open>
  C9 as stated fails on the code: the comma does not end a sentence, and it gets the
  extended delay.
\<close>

theorem comma_pause_counterexample:
  "\<not> spec_sentence_ending (of_char CHR '','')
   \<and> char_delay (of_char CHR '','') = LINE_TYPE_SPEED_MS + 3 * LINE_TYPE_SPEED_MS"
  by (simp add: spec_sentence_ending_def char_delay_def extra_of_def)

text \<open>
  C10, as amended. Let \<open>n\<close> be what \<^verbatim>\<open>Number\<close> gives for the count hint, a missing
  argument counting as 1. When \<open>n\<close> is not a positive number (NaN, zero, a negative
  number or minus infinity: so for the hints 0, -4, NaN, \<^verbatim>\<open>null\<close>, \<^verbatim>\<open>false\<close>, the empty
  string, a string that is no numeral, a plain object) the count is 1 and the inter-line
  gap is the base gap. When \<open>n\<close> is positive the count is the larger of 1 and \<open>n\<close>,
  whatever the type of the hint: the string \<^verbatim>\<open>"3"\<close> counts as 3, and plus infinity stays
  infinite, with the gap at the cap of 1200 ms. Whenever \<^verbatim>\<open>Number\<close> returns, the count
  is at least 1 and the gap is a finite number from the base gap to the cap. When
  \<^verbatim>\<open>Number\<close> throws (a symbol, an object whose conversion throws) there is no count:
  the run ends with that error and parks no timer. The empty string converts to 0, the
  strings \<^verbatim>\<open>"abc"\<close> and \<^verbatim>\<open>"[object Object]"\<close> (a plain object) to NaN, and the
  string \<^verbatim>\<open>"3"\<close> to 3, which gives a gap of 630 ms.
\<close>

theorem count_normalised_to_one:
  "(\<forall>n. Number_of (default_1 v) = Inr n \<longrightarrow>
        (\<not> js_positive n \<longrightarrow> count_of (default_1 v) = Inr (Fin 1))
      \<and> (js_positive n \<longrightarrow> count_of (default_1 v) = Inr (Math_max (Fin 1) n))
      \<and> (\<exists>c. count_of (default_1 v) = Inr c \<and> js_le (Fin 1) c
             \<and> js_le (Fin LINE_GAP_BASE_MS) (gapMs_of c) \<and> js_le (gapMs_of c) (Fin 1200)))
   \<and> (\<forall>e. Number_of (default_1 v) = Inl e \<longrightarrow>
          count_of (default_1 v) = Inl e
        \<and> (ensureLinesContainer p \<noteq> None \<longrightarrow>
              fst (runOverlaySequence p v s) = Some e
            \<and> pending (snd (runOverlaySequence p v s)) = pending s))
   \<and> default_1 JUndefined = JNum (Fin 1)
   \<and> count_of (default_1 JUndefined) = Inr (Fin 1)
   \<and> gapMs_of (Fin 1) = Fin LINE_GAP_BASE_MS
   \<and> count_of (default_1 (JNum PosInf)) = Inr PosInf
   \<and> gapMs_of PosInf = Fin 1200
   \<and> Number_of (JStr []) = Inr (Fin 0)
   \<and> Number_of (JStr (js_str ''abc'')) = Inr NaN
   \<and> Number_of (JObj (Inr (JStr (js_str ''[object Object]'')))) = Inr NaN
   \<and> Number_of (JStr (js_str ''3'')) = Inr (Fin 3)
   \<and> gapMs_of (Fin 3) = Fin 630
   \<and> Number_of JSymbol = Inl TypeError"
proof -
  have a: "\<forall>n. Number_of (default_1 v) = Inr n \<longrightarrow>
        (\<not> js_positive n \<longrightarrow> count_of (default_1 v) = Inr (Fin 1))
      \<and> (js_positive n \<longrightarrow> count_of (default_1 v) = Inr (Math_max (Fin 1) n))
      \<and> (\<exists>c. count_of (default_1 v) = Inr c \<and> js_le (Fin 1) c
             \<and> js_le (Fin LINE_GAP_BASE_MS) (gapMs_of c) \<and> js_le (gapMs_of c) (Fin 1200))"
  proof (intro allI impI)
    fix n
    assume n: "Number_of (default_1 v) = Inr n"
    let ?c = "if js_positive n then Math_max (Fin 1) n else Fin 1"
    have c: "count_of (default_1 v) = Inr ?c" using n by (rule count_of_result)
    have c1: "?c \<noteq> NaN \<and> js_le (Fin 1) ?c" using c by (rule count_at_least_1)
    then have g: "js_le (Fin LINE_GAP_BASE_MS) (gapMs_of ?c) \<and> js_le (gapMs_of ?c) (Fin 1200)"
      using gap_bounds[of ?c] by blast
    have e: "\<exists>c. count_of (default_1 v) = Inr c \<and> js_le (Fin 1) c
             \<and> js_le (Fin LINE_GAP_BASE_MS) (gapMs_of c) \<and> js_le (gapMs_of c) (Fin 1200)"
      using c c1 g by blast
    show "(\<not> js_positive n \<longrightarrow> count_of (default_1 v) = Inr (Fin 1))
      \<and> (js_positive n \<longrightarrow> count_of (default_1 v) = Inr (Math_max (Fin 1) n))
      \<and> (\<exists>c. count_of (default_1 v) = Inr c \<and> js_le (Fin 1) c
             \<and> js_le (Fin LINE_GAP_BASE_MS) (gapMs_of c) \<and> js_le (gapMs_of c) (Fin 1200))"
      using c e by simp
  qed
  have b: "\<forall>e. Number_of (default_1 v) = Inl e \<longrightarrow>
          count_of (default_1 v) = Inl e
        \<and> (ensureLinesContainer p \<noteq> None \<longrightarrow>
              fst (runOverlaySequence p v s) = Some e
            \<and> pending (snd (runOverlaySequence p v s)) = pending s)"
    by (auto simp: runOverlaySequence_def Let_def count_of_def)
  have c: "default_1 JUndefined = JNum (Fin 1)" by (simp add: default_1_def)
  have d: "count_of (default_1 JUndefined) = Inr (Fin 1)" by (simp add: num_defs)
  have e: "gapMs_of (Fin 1) = Fin LINE_GAP_BASE_MS" by (simp add: num_defs)
  have f: "count_of (default_1 (JNum PosInf)) = Inr PosInf" by (simp add: num_defs)
  have g: "gapMs_of PosInf = Fin 1200" by (simp add: num_defs)
  have h: "Number_of (JStr []) = Inr (Fin 0)" by (simp add: parse_defs)
  have i: "Number_of (JStr (js_str ''abc'')) = Inr NaN" by (simp add: parse_defs)
  have j: "Number_of (JObj (Inr (JStr (js_str ''[object Object]'')))) = Inr NaN"
    by (simp add: Number_of_object parse_defs)
  have k: "Number_of (JStr (js_str ''3'')) = Inr (Fin 3)" by (simp add: parse_defs)
  have l: "gapMs_of (Fin 3) = Fin 630" by (simp add: num_defs)
  have m: "Number_of JSymbol = Inl TypeError" by simp
  from a b c d e f g h i j k l m show ?thesis by blast
qed

theorem count_normalised_to_one_witness:
  "Number_of (default_1 (JNum (Fin 0))) = Inr (Fin 0) \<and> \<not> js_positive (Fin 0)
   \<and> count_of (default_1 (JNum (Fin 0))) = Inr (Fin 1)
   \<and> count_of (default_1 (JNum (Fin (- 4)))) = Inr (Fin 1)
   \<and> count_of (default_1 (JNum NaN)) = Inr (Fin 1)
   \<and> count_of (default_1 (JNum NegInf)) = Inr (Fin 1)
   \<and> count_of (default_1 JNull) = Inr (Fin 1)
   \<and> count_of (default_1 (JBool False)) = Inr (Fin 1)
   \<and> Number_of (default_1 (JStr [])) = Inr (Fin 0)
   \<and> count_of (default_1 (JStr [])) = Inr (Fin 1)
   \<and> Number_of (default_1 (JStr (js_str ''abc''))) = Inr NaN \<and> \<not> js_positive NaN
   \<and> count_of (default_1 (JStr (js_str ''abc''))) = Inr (Fin 1)
   \<and> Number_of (default_1 (JObj (Inr (JStr (js_str ''[object Object]''))))) = Inr NaN
   \<and> count_of (default_1 (JObj (Inr (JStr (js_str ''[object Object]''))))) = Inr (Fin 1)
   \<and> Number_of (default_1 (JStr (js_str ''3''))) = Inr (Fin 3) \<and> js_positive (Fin 3)
   \<and> count_of (default_1 (JStr (js_str ''3''))) = Inr (Fin 3)
   \<and> gapMs_of (Fin 3) = Fin 630
   \<and> Number_of (default_1 (JStr (js_str ''1.5''))) = Inr (Frac (3 / 2))
   \<and> count_of (default_1 (JStr (js_str ''1.5''))) = Inr (Frac (3 / 2))
   \<and> gapMs_of (Frac (3 / 2)) = Fin 315
   \<and> Number_of (default_1 (JObj (Inl Thrown))) = Inl Thrown
   \<and> count_of (default_1 (JObj (Inl Thrown))) = Inl Thrown
   \<and> ensureLinesContainer scenario_page \<noteq> None
   \<and> fst (runOverlaySequence scenario_page (JObj (Inl Thrown)) page_load) = Some Thrown
   \<and> gapMs_of (Fin 1) = Fin 210"
proof -
  have n0: "Number_of (default_1 (JNum (Fin 0))) = Inr (Fin 0)" by (simp add: default_1_def)
  have n1: "Number_of (default_1 (JNum (Fin (- 4)))) = Inr (Fin (- 4))" by (simp add: default_1_def)
  have n2: "Number_of (default_1 (JNum NaN)) = Inr NaN" by (simp add: default_1_def)
  have n3: "Number_of (default_1 (JNum NegInf)) = Inr NegInf" by (simp add: default_1_def)
  have n4: "Number_of (default_1 JNull) = Inr (Fin 0)" by (simp add: default_1_def)
  have n5: "Number_of (default_1 (JBool False)) = Inr (Fin 0)" by (simp add: default_1_def)
  have n6: "Number_of (default_1 (JStr [])) = Inr (Fin 0)"
    by (simp add: default_1_def parse_defs)
  have n7: "Number_of (default_1 (JStr (js_str ''abc''))) = Inr NaN"
    by (simp add: default_1_def parse_defs)
  have n8: "Number_of (default_1 (JObj (Inr (JStr (js_str ''[object Object]''))))) = Inr NaN"
    by (simp add: default_1_def Number_of_object parse_defs)
  have n9: "Number_of (default_1 (JStr (js_str ''3''))) = Inr (Fin 3)"
    by (simp add: default_1_def parse_defs)
  have n10: "Number_of (default_1 (JStr (js_str ''1.5''))) = Inr (Frac (3 / 2))"
    by (simp add: default_1_def parse_defs round_double_three_halves)
  have n11: "Number_of (default_1 (JObj (Inl Thrown))) = Inl Thrown" by (simp add: default_1_def)
  have m: "Math_max (Fin 1) (Fin 3) = Fin 3" "Math_max (Fin 1) (Frac (3 / 2)) = Frac (3 / 2)"
    by (simp_all add: Math_max_def)
  have g: "gapMs_of (Fin 3) = Fin 630" "gapMs_of (Frac (3 / 2)) = Fin 315"
    by (simp_all add: gapMs_of_def Math_min_def LINE_GAP_BASE_MS_def)
  have k: "ensureLinesContainer scenario_page \<noteq> None"
    by (simp add: scenario_page_def ensureLinesContainer_def)
  show ?thesis
    using count_normalised_to_one[of "JNum (Fin 0)"] count_normalised_to_one[of "JNum (Fin (- 4))"]
      count_normalised_to_one[of "JNum NaN"] count_normalised_to_one[of "JNum NegInf"]
      count_normalised_to_one[of JNull] count_normalised_to_one[of "JBool False"]
      count_normalised_to_one[of "JStr []"] count_normalised_to_one[of "JStr (js_str ''abc'')"]
      count_normalised_to_one[of "JObj (Inr (JStr (js_str ''[object Object]'')))"]
      count_normalised_to_one[of "JStr (js_str ''3'')"]
      count_normalised_to_one[of "JStr (js_str ''1.5'')"]
      count_normalised_to_one[of "JObj (Inl Thrown)" scenario_page page_load]
      n0 n1 n2 n3 n4 n5 n6 n7 n8 n9 n10 n11 m g k
    by (simp add: LINE_GAP_BASE_MS_def)
qed

text \<open>
  C10 as stated fails on the code: plus infinity is not a positive finite number, and
  the count stays infinite, with the gap at the cap instead of the base gap.
\<close>

theorem infinite_count_counterexample:
  "\<not> positive_finite_number (JNum PosInf)
   \<and> count_of (default_1 (JNum PosInf)) = Inr PosInf
   \<and> gapMs_of PosInf = Fin 1200
   \<and> gapMs_of PosInf \<noteq> Fin LINE_GAP_BASE_MS"
  by (simp add: num_defs)

end
